theory Spec2Isabelle
  imports Complex_Main "HOL-Library.Log_Nat" "HOL-Library.Multiset" "HOL-Library.List_Lexorder"
    "HOL-Library.Char_ord"
begin

section \<open>Python values used by the folder scanners\<close>

text \<open>
  The repository holds three command-line programs: \<^verbatim>\<open>folder_scanner.py\<close> (one directory
  level, \<^verbatim>\<open>os\<close> calls), \<^verbatim>\<open>folder_report.py\<close> (recursive, \<^verbatim>\<open>pathlib\<close>) and
  \<^verbatim>\<open>filter_by_extension.py\<close> (recursive with include and exclude lists). A Python
  \<^verbatim>\<open>str\<close> is modelled by its UTF-8 bytes; byte counts are natural numbers (Python's
  unbounded non-negative \<^verbatim>\<open>int\<close>).

  The exceptions: \<open>NotADirectoryError\<close> and \<open>SystemExit\<close> are the ones the programs raise
  themselves; \<open>OSError\<close> stands for an exception of class \<^verbatim>\<open>OSError\<close> (or a subclass) that
  a call of \<^verbatim>\<open>pathlib\<close> or \<^verbatim>\<open>os\<close> raises, \<open>RuntimeError\<close> for the one \<^verbatim>\<open>Path.resolve\<close>
  raises on a symbolic-link loop, \<open>OverflowError\<close> for the one of the float division.
\<close>

datatype error =
    NotADirectoryError string
  | SystemExit nat
  | OSError
  | RuntimeError
  | OverflowError

subsection \<open>Strings\<close>

text \<open>
  \<^verbatim>\<open>str.lower()\<close> reads the Unicode tables of the interpreter, which are not part of the
  repository: the scanners take it from the platform they run on (the fields \<open>str_lower\<close>
  and \<open>os_lower\<close> below). On a \<^verbatim>\<open>str\<close> of ASCII characters it is \<open>ascii_lower\<close>: the letters
  A to Z move to a to z.
\<close>

definition ascii_lower_char :: "char \<Rightarrow> char" where
  "ascii_lower_char c =
     (let n = (of_char c :: nat) in if 65 \<le> n \<and> n \<le> 90 then char_of (n + 32) else c)"

definition ascii_lower :: "string \<Rightarrow> string" where
  "ascii_lower s = map ascii_lower_char s"

definition is_ascii :: "string \<Rightarrow> bool" where
  "is_ascii s \<longleftrightarrow> list_all (\<lambda>c. (of_char c :: nat) < 128) s"

text \<open>
  \<^verbatim>\<open>len(s)\<close>, the number of code points: the bytes that do not continue a UTF-8 sequence.
\<close>

definition str_len :: "string \<Rightarrow> nat" where
  "str_len s = length (filter (\<lambda>c. \<not> (128 \<le> (of_char c :: nat) \<and> (of_char c :: nat) < 192)) s)"

text \<open>\<^verbatim>\<open>s.startswith(".")\<close>.\<close>

definition startswith_dot :: "string \<Rightarrow> bool" where
  "startswith_dot s = (case s of [] \<Rightarrow> False | c # _ \<Rightarrow> c = CHR ''.'')"

text \<open>\<^verbatim>\<open>str(n)\<close> for a non-negative integer.\<close>

definition digit_char :: "nat \<Rightarrow> char" where
  "digit_char d = ''0123456789'' ! d"

fun digits :: "nat \<Rightarrow> string" where
  "digits n = (if n < 10 then [digit_char n] else digits (n div 10) @ [digit_char (n mod 10)])"

declare digits.simps [simp del]

text \<open>
  The format specifications the reports use: \<^verbatim>\<open>{s:20}\<close> pads a string on the right,
  \<^verbatim>\<open>{n:6}\<close> pads a number on the left; neither truncates.
\<close>

definition ljust :: "nat \<Rightarrow> string \<Rightarrow> string" where
  "ljust w s = s @ replicate (w - str_len s) CHR '' ''"

definition rjust :: "nat \<Rightarrow> string \<Rightarrow> string" where
  "rjust w s = replicate (w - str_len s) CHR '' '' @ s"

text \<open>\<^verbatim>\<open>sep.join(lines)\<close>.\<close>

fun join :: "string \<Rightarrow> string list \<Rightarrow> string" where
  "join sep [] = []"
| "join sep [l] = l"
| "join sep (l # m # ls) = l @ sep @ join sep (m # ls)"

subsection \<open>Floats\<close>

text \<open>
  A Python \<^verbatim>\<open>float\<close> is an IEEE binary64 number; the model keeps its exact value as a
  rational. \<open>round_half_even\<close> rounds to the nearest integer, ties to the even one.
\<close>

definition round_half_even :: "rat \<Rightarrow> int" where
  "round_half_even x =
     (let f = \<lfloor>x\<rfloor>; d = x - of_int f
      in if d < 1 / 2 then f else if 1 / 2 < d then f + 1 else if even f then f else f + 1)"

text \<open>
  \<open>to_double x\<close> is the binary64 number nearest to \<open>x\<close> (53 significant bits, ties to
  even) for \<open>1 \<le> x\<close>, where \<open>bitlen \<lfloor>x\<rfloor> - 1\<close> is the binary exponent of \<open>x\<close>. A result
  beyond the largest double is Python's \<^verbatim>\<open>OverflowError\<close>.
\<close>

definition to_double :: "rat \<Rightarrow> error + rat" where
  "to_double x =
     (let e = bitlen \<lfloor>x\<rfloor> - 1;
          ulp = 2 powi (e - 52);
          y = of_int (round_half_even (x / ulp)) * ulp
      in if 2 ^ 1024 \<le> y then Inl OverflowError else Inr y)"

text \<open>
  The values with a 53-bit significand; the exponent range is checked where a value is
  formed.
\<close>

definition is_double :: "rat \<Rightarrow> bool" where
  "is_double x \<longleftrightarrow> (\<exists>m t. x = of_int m * 2 powi t \<and> 0 \<le> m \<and> m < 2 ^ 53)"

text \<open>
  \<^verbatim>\<open>a / b\<close> on Python numbers (true division): the correctly rounded quotient. The
  scanners only divide a value by a power of 1024 that it has reached, so every quotient
  is at least 1.
\<close>

definition truediv :: "rat \<Rightarrow> rat \<Rightarrow> error + rat" where
  "truediv a b = to_double (a / b)"

text \<open>
  \<^verbatim>\<open>f"{x:.2f}"\<close> for \<open>0 \<le> x\<close>: the exact value of the float, rounded to two decimals
  (ties to even), all integer digits printed.
\<close>

definition fmt2f :: "rat \<Rightarrow> string" where
  "fmt2f x =
     (let c = nat (round_half_even (x * 100))
      in digits (c div 100) @ ''.'' @ digits (c mod 100 div 10) @ digits (c mod 10))"

section \<open>Byte-size formatting\<close>

text \<open>
  \<^verbatim>\<open>folder_report.format_size\<close>, which \<^verbatim>\<open>filter_by_extension.py\<close> imports: the loop over
  the five units, then the \<^verbatim>\<open>PB\<close> line after it.
\<close>

fun format_loop :: "string list \<Rightarrow> rat \<Rightarrow> error + string" where
  "format_loop [] size_bytes = Inr (fmt2f size_bytes @ '' PB'')"
| "format_loop (unit # units) size_bytes =
     (if size_bytes < 1024 then Inr (fmt2f size_bytes @ '' '' @ unit)
      else case truediv size_bytes 1024 of
             Inl err \<Rightarrow> Inl err
           | Inr q \<Rightarrow> format_loop units q)"

definition format_size :: "nat \<Rightarrow> error + string" where
  "format_size size_bytes =
     format_loop [''B'', ''KB'', ''MB'', ''GB'', ''TB''] (of_nat size_bytes)"

text \<open>
  \<^verbatim>\<open>folder_scanner.format_size\<close>: an \<^verbatim>\<open>if\<close> chain that prints the bare integer below 1024
  and stops at \<^verbatim>\<open>GB\<close>.
\<close>

definition scanner_format_size :: "nat \<Rightarrow> error + string" where
  "scanner_format_size size_bytes =
     (if size_bytes < 1024 then Inr (digits size_bytes @ '' B'')
      else if size_bytes < 1024 ^ 2 then
        (case truediv (of_nat size_bytes) 1024 of
           Inl err \<Rightarrow> Inl err | Inr q \<Rightarrow> Inr (fmt2f q @ '' KB''))
      else if size_bytes < 1024 ^ 3 then
        (case truediv (of_nat size_bytes) (1024 ^ 2) of
           Inl err \<Rightarrow> Inl err | Inr q \<Rightarrow> Inr (fmt2f q @ '' MB''))
      else
        (case truediv (of_nat size_bytes) (1024 ^ 3) of
           Inl err \<Rightarrow> Inl err | Inr q \<Rightarrow> Inr (fmt2f q @ '' GB'')))"

section \<open>The file system\<close>

text \<open>
  A \<^verbatim>\<open>pathlib.Path\<close> through the three attributes the code reads: \<^verbatim>\<open>str(entry)\<close>,
  \<^verbatim>\<open>entry.name\<close> and \<^verbatim>\<open>entry.suffix\<close>.
\<close>

record path =
  p_str :: string
  p_name :: string
  p_suffix :: string

text \<open>
  What \<^verbatim>\<open>folder_report.py\<close> and \<^verbatim>\<open>filter_by_extension.py\<close> take from the platform they run
  on. Every call of \<^verbatim>\<open>pathlib\<close> can raise, and \<open>None\<close> is a call that raises:

    \<^item> \<open>resolve\<close>: \<^verbatim>\<open>Path(p).resolve()\<close>, which raises \<^verbatim>\<open>RuntimeError\<close> on a loop of symbolic
      links;
    \<^item> \<open>is_dir\<close>: \<^verbatim>\<open>root.is_dir()\<close>. It answers \<^verbatim>\<open>False\<close> for a path that does not exist or
      is not a directory; the \<^verbatim>\<open>pathlib\<close> of Python 3.12 and earlier re-raises every other
      \<^verbatim>\<open>OSError\<close> of its \<^verbatim>\<open>stat\<close> (permission denied, a name that is too long). On a
      platform where it never raises the field is never \<open>None\<close>;
    \<^item> \<open>rglob\<close>: the entries \<^verbatim>\<open>root.rglob("*")\<close> yields, in traversal order; \<open>None\<close> when the
      walk raises \<^verbatim>\<open>OSError\<close> before it is exhausted;
    \<^item> \<open>is_file\<close>: \<^verbatim>\<open>entry.is_file()\<close>, which re-raises like \<^verbatim>\<open>is_dir\<close>;
    \<^item> \<open>stat_size\<close>: \<^verbatim>\<open>entry.stat().st_size\<close>, \<open>None\<close> when \<^verbatim>\<open>stat\<close> raises \<^verbatim>\<open>OSError\<close>. It is a
      field of its own because the two \<^verbatim>\<open>stat\<close> calls on an entry, the one inside
      \<^verbatim>\<open>is_file()\<close> and this one, are made at different moments;
    \<^item> \<open>str_lower\<close>: \<^verbatim>\<open>str.lower()\<close> of the interpreter.
\<close>

record filesystem =
  resolve :: "string \<Rightarrow> path option"
  is_dir :: "path \<Rightarrow> bool option"
  rglob :: "path \<Rightarrow> path list option"
  is_file :: "path \<Rightarrow> bool option"
  stat_size :: "path \<Rightarrow> nat option"
  str_lower :: "string \<Rightarrow> string"

text \<open>
  The \<^verbatim>\<open>os\<close> and \<^verbatim>\<open>os.path\<close> calls of \<^verbatim>\<open>folder_scanner.py\<close>. \<^verbatim>\<open>os.path.isdir\<close> and
  \<^verbatim>\<open>os.path.isfile\<close> answer \<^verbatim>\<open>False\<close> on every \<^verbatim>\<open>OSError\<close>; \<open>os_listdir\<close> and \<open>os_getsize\<close>
  are \<open>None\<close> when \<^verbatim>\<open>os.listdir\<close> and \<^verbatim>\<open>os.path.getsize\<close> raise \<^verbatim>\<open>OSError\<close>; \<open>os_splitext\<close> is
  the second component of \<^verbatim>\<open>os.path.splitext\<close>; \<open>os_lower\<close> is \<^verbatim>\<open>str.lower()\<close>.
\<close>

record os_env =
  os_isdir :: "string \<Rightarrow> bool"
  os_listdir :: "string \<Rightarrow> string list option"
  os_join :: "string \<Rightarrow> string \<Rightarrow> string"
  os_isfile :: "string \<Rightarrow> bool"
  os_getsize :: "string \<Rightarrow> nat option"
  os_splitext :: "string \<Rightarrow> string"
  os_lower :: "string \<Rightarrow> string"

text \<open>
  What the report of \<^verbatim>\<open>folder_scanner.py\<close> reads when it is built: the text of
  \<^verbatim>\<open>datetime.now().strftime('%Y-%m-%d %H:%M:%S')\<close> and \<^verbatim>\<open>os.path.abspath\<close>, which depends on
  the working directory. The reports of the other two programs are given the same
  parameter, so that what they read of it, if anything, shows in the theorems.
\<close>

record world =
  clock_text :: string
  os_abspath :: "string \<Rightarrow> string"

section \<open>Scanning: \<^verbatim>\<open>folder_report.py\<close> and \<^verbatim>\<open>filter_by_extension.py\<close>\<close>

record bucket =
  b_count :: nat
  b_size :: nat

text \<open>
  The dictionary \<^verbatim>\<open>scan_folder\<close> returns; the loop's local variables are its fields.
  \<open>by_extension\<close> is the \<^verbatim>\<open>defaultdict\<close> in insertion order.
\<close>

record scan_data =
  folder :: string
  total_files :: nat
  total_size :: nat
  largest_file :: "path option"
  largest_size :: nat
  by_extension :: "(string \<times> bucket) list"

text \<open>\<^verbatim>\<open>scan_folder_filtered\<close> returns three more keys.\<close>

record filtered_data = scan_data +
  skipped :: nat
  filter_include :: "string list option"
  filter_exclude :: "string list option"

text \<open>\<^verbatim>\<open>entry.suffix.lower() or "(no extension)"\<close>.\<close>

definition extension_of :: "filesystem \<Rightarrow> path \<Rightarrow> string" where
  "extension_of fs entry =
     (let s = str_lower fs (p_suffix entry) in if s = [] then ''(no extension)'' else s)"

text \<open>\<^verbatim>\<open>try: size = entry.stat().st_size except OSError: size = 0\<close>.\<close>

definition read_size :: "filesystem \<Rightarrow> path \<Rightarrow> nat" where
  "read_size fs entry = (case stat_size fs entry of Some n \<Rightarrow> n | None \<Rightarrow> 0)"

text \<open>
  \<^verbatim>\<open>by_extension[ext]["count"] += 1; by_extension[ext]["size"] += size\<close>: a missing key
  starts from the default bucket of zeros.
\<close>

fun add_to_bucket :: "string \<Rightarrow> nat \<Rightarrow> (string \<times> bucket) list \<Rightarrow> (string \<times> bucket) list" where
  "add_to_bucket ext sz [] = [(ext, \<lparr>b_count = 0 + 1, b_size = 0 + sz\<rparr>)]"
| "add_to_bucket ext sz ((k, b) # kvs) =
     (if k = ext then (k, b\<lparr>b_count := b_count b + 1, b_size := b_size b + sz\<rparr>) # kvs
      else (k, b) # add_to_bucket ext sz kvs)"

text \<open>
  The statements both recursive scanners run for a retained file: count it, read its size,
  add the size, replace the largest file when \<^verbatim>\<open>size >= largest_size\<close>, update the bucket.
\<close>

definition count_file :: "filesystem \<Rightarrow> path \<Rightarrow> 'a scan_data_scheme \<Rightarrow> 'a scan_data_scheme" where
  "count_file fs entry st =
     (let st1 = st\<lparr>total_files := total_files st + 1\<rparr>;
          sz = read_size fs entry;
          st2 = st1\<lparr>total_size := total_size st1 + sz\<rparr>;
          st3 = (if largest_size st2 \<le> sz
                 then st2\<lparr>largest_size := sz, largest_file := Some entry\<rparr> else st2)
      in st3\<lparr>by_extension := add_to_bucket (extension_of fs entry) sz (by_extension st3)\<rparr>)"

text \<open>
  The body of the \<^verbatim>\<open>for\<close> loop of \<^verbatim>\<open>folder_report.scan_folder\<close>, and the loop.
  \<^verbatim>\<open>entry.is_file()\<close> is called outside the \<^verbatim>\<open>try\<close>, so an \<^verbatim>\<open>OSError\<close> it raises leaves the
  loop and the function.
\<close>

definition scan_entry :: "filesystem \<Rightarrow> path \<Rightarrow> scan_data \<Rightarrow> error + scan_data" where
  "scan_entry fs entry st =
     (case is_file fs entry of
        None \<Rightarrow> Inl OSError
      | Some b \<Rightarrow> if b then Inr (count_file fs entry st) else Inr st)"

fun scan_entries :: "filesystem \<Rightarrow> path list \<Rightarrow> scan_data \<Rightarrow> error + scan_data" where
  "scan_entries fs [] st = Inr st"
| "scan_entries fs (entry # rest) st =
     (case scan_entry fs entry st of
        Inl err \<Rightarrow> Inl err
      | Inr st' \<Rightarrow> scan_entries fs rest st')"

text \<open>The variables before the loop, with the \<^verbatim>\<open>"folder"\<close> entry of the result.\<close>

definition initial_data :: "string \<Rightarrow> scan_data" where
  "initial_data root_str =
     \<lparr>folder = root_str, total_files = 0, total_size = 0, largest_file = None,
      largest_size = 0, by_extension = []\<rparr>"

text \<open>
  \<^verbatim>\<open>scan_folder\<close>: resolve the path, test \<^verbatim>\<open>root.is_dir()\<close>, raise \<^verbatim>\<open>NotADirectoryError\<close> with
  the path as it was passed, otherwise run the loop. The walk is lazy, so a walk that
  raises does so during the loop; the function is left with an \<^verbatim>\<open>OSError\<close> either way.
\<close>

definition scan_folder :: "filesystem \<Rightarrow> string \<Rightarrow> error + scan_data" where
  "scan_folder fs folder_path =
     (case resolve fs folder_path of
        None \<Rightarrow> Inl RuntimeError
      | Some root_path \<Rightarrow>
          (case is_dir fs root_path of
             None \<Rightarrow> Inl OSError
           | Some d \<Rightarrow>
               if \<not> d then Inl (NotADirectoryError (''Not a directory: '' @ folder_path))
               else (case rglob fs root_path of
                       None \<Rightarrow> Inl OSError
                     | Some entries \<Rightarrow> scan_entries fs entries (initial_data (p_str root_path)))))"

text \<open>
  The normalisation of the extension lists: a dot in front when missing, then lower case;
  \<^verbatim>\<open>None\<close> and the empty list are falsy and stay as they are.
\<close>

definition add_dot :: "string \<Rightarrow> string" where
  "add_dot e = (if startswith_dot e then e else ''.'' @ e)"

definition normalize_ext :: "filesystem \<Rightarrow> string \<Rightarrow> string" where
  "normalize_ext fs e = str_lower fs (add_dot e)"

definition truthy :: "'a list option \<Rightarrow> bool" where
  "truthy l = (case l of None \<Rightarrow> False | Some xs \<Rightarrow> xs \<noteq> [])"

definition normalize_exts :: "filesystem \<Rightarrow> string list option \<Rightarrow> string list option" where
  "normalize_exts fs exts =
     (case exts of
        None \<Rightarrow> None
      | Some xs \<Rightarrow> if xs \<noteq> [] then Some (map (str_lower fs) (map add_dot xs)) else Some xs)"

text \<open>The elements of an optional list; \<^verbatim>\<open>None\<close> is only read after a truth test.\<close>

definition items :: "'a list option \<Rightarrow> 'a list" where
  "items l = (case l of None \<Rightarrow> [] | Some xs \<Rightarrow> xs)"

text \<open>\<^verbatim>\<open>ext in l\<close> for a list that is known to be truthy where it is read.\<close>

definition contains :: "string list option \<Rightarrow> string \<Rightarrow> bool" where
  "contains l ext \<longleftrightarrow> ext \<in> set (items l)"

text \<open>
  The body of the loop of \<^verbatim>\<open>scan_folder_filtered\<close>, with its three \<^verbatim>\<open>continue\<close>; here too
  \<^verbatim>\<open>entry.is_file()\<close> is called outside the \<^verbatim>\<open>try\<close>.
\<close>

definition scan_entry_filtered ::
  "filesystem \<Rightarrow> string list option \<Rightarrow> string list option \<Rightarrow> path \<Rightarrow> filtered_data
     \<Rightarrow> error + filtered_data"
where
  "scan_entry_filtered fs extensions exclude entry st =
     (case is_file fs entry of
        None \<Rightarrow> Inl OSError
      | Some b \<Rightarrow>
          if \<not> b then Inr st
          else let ext = extension_of fs entry
               in if truthy extensions \<and> \<not> contains extensions ext
                  then Inr (st\<lparr>skipped := skipped st + 1\<rparr>)
                  else if truthy exclude \<and> contains exclude ext
                  then Inr (st\<lparr>skipped := skipped st + 1\<rparr>)
                  else Inr (count_file fs entry st))"

fun scan_entries_filtered ::
  "filesystem \<Rightarrow> string list option \<Rightarrow> string list option \<Rightarrow> path list \<Rightarrow> filtered_data
     \<Rightarrow> error + filtered_data"
where
  "scan_entries_filtered fs extensions exclude [] st = Inr st"
| "scan_entries_filtered fs extensions exclude (entry # rest) st =
     (case scan_entry_filtered fs extensions exclude entry st of
        Inl err \<Rightarrow> Inl err
      | Inr st' \<Rightarrow> scan_entries_filtered fs extensions exclude rest st')"

definition initial_filtered ::
  "string \<Rightarrow> string list option \<Rightarrow> string list option \<Rightarrow> filtered_data"
where
  "initial_filtered root_str extensions exclude =
     \<lparr>folder = root_str, total_files = 0, total_size = 0, largest_file = None,
      largest_size = 0, by_extension = [], skipped = 0,
      filter_include = extensions, filter_exclude = exclude\<rparr>"

definition scan_folder_filtered ::
  "filesystem \<Rightarrow> string \<Rightarrow> string list option \<Rightarrow> string list option \<Rightarrow> error + filtered_data"
where
  "scan_folder_filtered fs folder_path extensions exclude =
     (case resolve fs folder_path of
        None \<Rightarrow> Inl RuntimeError
      | Some root_path \<Rightarrow>
          (case is_dir fs root_path of
             None \<Rightarrow> Inl OSError
           | Some d \<Rightarrow>
               if \<not> d then Inl (NotADirectoryError (''Not a directory: '' @ folder_path))
               else let extensions' = normalize_exts fs extensions;
                        exclude' = normalize_exts fs exclude
                    in (case rglob fs root_path of
                          None \<Rightarrow> Inl OSError
                        | Some entries \<Rightarrow>
                            scan_entries_filtered fs extensions' exclude' entries
                              (initial_filtered (p_str root_path) extensions' exclude'))))"

section \<open>Scanning: \<^verbatim>\<open>folder_scanner.py\<close>\<close>

text \<open>The dictionary \<^verbatim>\<open>folder_scanner.scan_folder\<close> returns; \<open>extensions\<close> is the \<^verbatim>\<open>Counter\<close>.\<close>

record scanner_data =
  sc_total_files :: nat
  sc_total_size :: nat
  largest_file_name :: "string option"
  largest_file_size :: nat
  extensions :: "(string \<times> nat) list"

text \<open>\<^verbatim>\<open>extension_counter[ext] += 1\<close>.\<close>

fun counter_incr :: "string \<Rightarrow> (string \<times> nat) list \<Rightarrow> (string \<times> nat) list" where
  "counter_incr ext [] = [(ext, 0 + 1)]"
| "counter_incr ext ((k, c) # kvs) =
     (if k = ext then (k, c + 1) # kvs else (k, c) # counter_incr ext kvs)"

text \<open>
  The loop over \<^verbatim>\<open>os.listdir(folder_path)\<close>. \<^verbatim>\<open>os.path.getsize\<close> is not guarded, so its
  \<^verbatim>\<open>OSError\<close> leaves the loop and the function; the largest file is replaced only when
  \<^verbatim>\<open>file_size > largest_file_size\<close>.
\<close>

fun scanner_entries :: "os_env \<Rightarrow> string \<Rightarrow> string list \<Rightarrow> scanner_data \<Rightarrow> error + scanner_data" where
  "scanner_entries os folder_path [] st = Inr st"
| "scanner_entries os folder_path (entry # rest) st =
     (let full_path = os_join os folder_path entry
      in if \<not> os_isfile os full_path then scanner_entries os folder_path rest st
         else let st1 = st\<lparr>sc_total_files := sc_total_files st + 1\<rparr>
              in case os_getsize os full_path of
                   None \<Rightarrow> Inl OSError
                 | Some file_size \<Rightarrow>
                     let st2 = st1\<lparr>sc_total_size := sc_total_size st1 + file_size\<rparr>;
                         st3 = (if largest_file_size st2 < file_size
                                then st2\<lparr>largest_file_size := file_size,
                                         largest_file_name := Some entry\<rparr>
                                else st2);
                         ext = os_splitext os entry;
                         ext' = (if ext \<noteq> [] then os_lower os ext else ''(no extension)'')
                     in scanner_entries os folder_path rest
                          (st3\<lparr>extensions := counter_incr ext' (extensions st3)\<rparr>))"

text \<open>
  A path that is not a directory prints a message and calls \<^verbatim>\<open>sys.exit(1)\<close>; \<^verbatim>\<open>os.listdir\<close>
  is not guarded either.
\<close>

definition initial_scanner :: scanner_data where
  "initial_scanner =
     \<lparr>sc_total_files = 0, sc_total_size = 0, largest_file_name = None,
      largest_file_size = 0, extensions = []\<rparr>"

definition scanner_scan_folder :: "os_env \<Rightarrow> string \<Rightarrow> error + scanner_data" where
  "scanner_scan_folder os folder_path =
     (if \<not> os_isdir os folder_path then Inl (SystemExit 1)
      else (case os_listdir os folder_path of
              None \<Rightarrow> Inl OSError
            | Some entries \<Rightarrow> scanner_entries os folder_path entries initial_scanner))"

section \<open>Reports\<close>

text \<open>The first error of a list of results, or all the values.\<close>

fun collect :: "(error + 'a) list \<Rightarrow> error + 'a list" where
  "collect [] = Inr []"
| "collect (Inl err # rs) = Inl err"
| "collect (Inr v # rs) = (case collect rs of Inl err \<Rightarrow> Inl err | Inr vs \<Rightarrow> Inr (v # vs))"

definition newline :: string where
  "newline = [CHR 0x0A]"

text \<open>The largest-file lines of \<^verbatim>\<open>build_report\<close> and \<^verbatim>\<open>build_filtered_report\<close>.\<close>

definition largest_lines :: "'a scan_data_scheme \<Rightarrow> error + string list" where
  "largest_lines data =
     (case largest_file data of
        Some entry \<Rightarrow>
          (case format_size (largest_size data) of
             Inl err \<Rightarrow> Inl err
           | Inr s \<Rightarrow> Inr [''Largest file: '' @ p_name entry @ '' ('' @ s @ '')'',
                         ''  Path: '' @ p_str entry])
      | None \<Rightarrow> Inr [''Largest file: (none)''])"

text \<open>One line of the breakdown, and the lines for the keys in sorted order.\<close>

definition bucket_line :: "string \<times> bucket \<Rightarrow> error + string" where
  "bucket_line kv =
     (case format_size (b_size (snd kv)) of
        Inl err \<Rightarrow> Inl err
      | Inr s \<Rightarrow> Inr (''  '' @ ljust 20 (fst kv) @ ''  count: ''
                      @ rjust 6 (digits (b_count (snd kv))) @ ''  size: '' @ s))"

definition breakdown_lines :: "'a scan_data_scheme \<Rightarrow> error + string list" where
  "breakdown_lines data = collect (map bucket_line (sort_key fst (by_extension data)))"

text \<open>
  \<^verbatim>\<open>folder_report.build_report\<close>. The keys are visited in sorted order (strings compare by
  code point, which is the order of their UTF-8 bytes), whatever the order of the dictionary.
\<close>

definition build_report :: "world \<Rightarrow> scan_data \<Rightarrow> error + string" where
  "build_report w data =
     (case format_size (total_size data) of
        Inl err \<Rightarrow> Inl err
      | Inr total_text \<Rightarrow>
     (case largest_lines data of
        Inl err \<Rightarrow> Inl err
      | Inr largest \<Rightarrow>
     (case breakdown_lines data of
        Inl err \<Rightarrow> Inl err
      | Inr breakdown \<Rightarrow>
          Inr (join newline
            ([replicate 60 CHR ''='',
              ''FOLDER SCAN REPORT'',
              replicate 60 CHR ''='',
              ''Folder: '' @ folder data,
              [],
              ''SUMMARY'',
              replicate 40 CHR ''-'',
              ''Total files:  '' @ digits (total_files data),
              ''Total size:   '' @ total_text,
              []]
             @ largest
             @ [[], ''FILE TYPES BREAKDOWN'', replicate 40 CHR ''-'']
             @ breakdown
             @ [replicate 60 CHR ''=''])))))"

text \<open>\<^verbatim>\<open>filter_by_extension.build_filtered_report\<close>.\<close>

definition filter_lines :: "filtered_data \<Rightarrow> string list" where
  "filter_lines data =
     (if truthy (filter_include data)
      then [''Include extensions: '' @ join '', '' (items (filter_include data))]
      else [])
     @ (if truthy (filter_exclude data)
        then [''Exclude extensions: '' @ join '', '' (items (filter_exclude data))]
        else [])
     @ [''Files skipped by filter: '' @ digits (skipped data)]"

definition build_filtered_report :: "world \<Rightarrow> filtered_data \<Rightarrow> error + string" where
  "build_filtered_report w data =
     (case format_size (total_size data) of
        Inl err \<Rightarrow> Inl err
      | Inr total_text \<Rightarrow>
     (case largest_lines data of
        Inl err \<Rightarrow> Inl err
      | Inr largest \<Rightarrow>
     (case breakdown_lines data of
        Inl err \<Rightarrow> Inl err
      | Inr breakdown \<Rightarrow>
          Inr (join newline
            ([replicate 60 CHR ''='',
              ''FOLDER SCAN REPORT (FILTERED)'',
              replicate 60 CHR ''='',
              ''Folder: '' @ folder data,
              []]
             @ filter_lines data
             @ [[],
                ''SUMMARY'',
                replicate 40 CHR ''-'',
                ''Total files (after filter):  '' @ digits (total_files data),
                ''Total size  (after filter):  '' @ total_text,
                []]
             @ largest
             @ [[], ''FILE TYPES BREAKDOWN'', replicate 40 CHR ''-'']
             @ breakdown
             @ [replicate 60 CHR ''=''])))))"

text \<open>
  \<^verbatim>\<open>folder_scanner.build_report\<close>. It reads the clock and the working directory. The
  empty-folder line of the source file holds the three characters U+00E2, U+20AC and U+201D
  after \<^verbatim>\<open>(none\<close>, eight bytes in UTF-8.
\<close>

definition none_line :: string where
  "none_line =
     ''Largest file   : (none ''
     @ [CHR 0xC3, CHR 0xA2, CHR 0xE2, CHR 0x82, CHR 0xAC, CHR 0xE2, CHR 0x80, CHR 0x9D]
     @ '' folder is empty)''"

definition scanner_largest_line :: "scanner_data \<Rightarrow> error + string" where
  "scanner_largest_line data =
     (case largest_file_name data of
        None \<Rightarrow> Inr none_line
      | Some name \<Rightarrow>
          if name = [] then Inr none_line
          else case scanner_format_size (largest_file_size data) of
                 Inl err \<Rightarrow> Inl err
               | Inr s \<Rightarrow> Inr (''Largest file   : '' @ name @ '' ('' @ s @ '')''))"

definition scanner_type_lines :: "scanner_data \<Rightarrow> string list" where
  "scanner_type_lines data =
     (if extensions data \<noteq> []
      then map (\<lambda>kv. ''  '' @ ljust 20 (fst kv) @ '' : '' @ digits (snd kv) @ '' file(s)'')
             (sort_key fst (extensions data))
      else [''  (no files found)''])"

definition scanner_build_report :: "world \<Rightarrow> string \<Rightarrow> scanner_data \<Rightarrow> error + string" where
  "scanner_build_report w folder_path data =
     (case scanner_format_size (sc_total_size data) of
        Inl err \<Rightarrow> Inl err
      | Inr total_text \<Rightarrow>
     (case scanner_largest_line data of
        Inl err \<Rightarrow> Inl err
      | Inr largest \<Rightarrow>
          Inr (join newline
            ([replicate 50 CHR ''='',
              ''        FOLDER SCAN REPORT'',
              replicate 50 CHR ''='',
              ''Folder scanned : '' @ os_abspath w folder_path,
              ''Scan date      : '' @ clock_text w,
              replicate 50 CHR ''-'',
              ''Total files    : '' @ digits (sc_total_files data),
              ''Total size     : '' @ total_text,
              largest,
              replicate 50 CHR ''-'',
              ''File types breakdown:'']
             @ scanner_type_lines data
             @ [replicate 50 CHR ''='']))))"

section \<open>Notions used to state the properties\<close>

text \<open>
  The entries the walk of a root yields (none when the path cannot be resolved or the walk
  raises), and those of a list for which \<^verbatim>\<open>is_file()\<close> answers \<^verbatim>\<open>True\<close>.
\<close>

definition walked :: "filesystem \<Rightarrow> string \<Rightarrow> path list" where
  "walked fs folder_path =
     (case resolve fs folder_path of
        None \<Rightarrow> []
      | Some root_path \<Rightarrow> (case rglob fs root_path of None \<Rightarrow> [] | Some entries \<Rightarrow> entries))"

definition regular_files :: "filesystem \<Rightarrow> path list \<Rightarrow> path list" where
  "regular_files fs entries = filter (\<lambda>entry. is_file fs entry = Some True) entries"

text \<open>Every \<^verbatim>\<open>is_file()\<close> call on the entries of a list answers.\<close>

definition answered :: "filesystem \<Rightarrow> path list \<Rightarrow> bool" where
  "answered fs entries \<longleftrightarrow> list_all (\<lambda>entry. is_file fs entry \<noteq> None) entries"

text \<open>
  An extension passes the filters when neither \<^verbatim>\<open>continue\<close> of the filtering loop is
  taken; the retained entries are the regular files whose extension passes.
\<close>

definition passes :: "string list option \<Rightarrow> string list option \<Rightarrow> string \<Rightarrow> bool" where
  "passes incl excl ext \<longleftrightarrow>
     \<not> (truthy incl \<and> \<not> contains incl ext) \<and> \<not> (truthy excl \<and> contains excl ext)"

definition retained ::
  "filesystem \<Rightarrow> string list option \<Rightarrow> string list option \<Rightarrow> path list \<Rightarrow> path list"
where
  "retained fs incl excl entries =
     filter (\<lambda>entry. is_file fs entry = Some True \<and> passes incl excl (extension_of fs entry))
       entries"

text \<open>The buckets add up to the totals.\<close>

definition coherent :: "'a scan_data_scheme \<Rightarrow> bool" where
  "coherent st \<longleftrightarrow>
     sum_list (map (\<lambda>kv. b_count (snd kv)) (by_extension st)) = total_files st
     \<and> sum_list (map (\<lambda>kv. b_size (snd kv)) (by_extension st)) = total_size st
     \<and> distinct (map fst (by_extension st))"

text \<open>The counting statements run for each file of a list, in order.\<close>

definition count_files :: "filesystem \<Rightarrow> path list \<Rightarrow> 'a scan_data_scheme \<Rightarrow> 'a scan_data_scheme" where
  "count_files fs files st = foldl (\<lambda>st entry. count_file fs entry st) st files"

text \<open>The files that a filter drops.\<close>

definition dropped ::
  "filesystem \<Rightarrow> string list option \<Rightarrow> string list option \<Rightarrow> path list \<Rightarrow> path list"
where
  "dropped fs incl excl entries =
     filter (\<lambda>entry. is_file fs entry = Some True \<and> \<not> passes incl excl (extension_of fs entry))
       entries"

text \<open>The byte counts of a result are in the range where the float division succeeds.\<close>

definition sizes_in_range :: "'a scan_data_scheme \<Rightarrow> bool" where
  "sizes_in_range data \<longleftrightarrow>
     total_size data < 2 ^ 1033 \<and> largest_size data < 2 ^ 1033
     \<and> list_all (\<lambda>kv. b_size (snd kv) < 2 ^ 1033) (by_extension data)"

text \<open>
  The names \<^verbatim>\<open>folder_scanner.scan_folder\<close> counts, in listing order, and the size it reads
  for a name.
\<close>

definition scanner_files :: "os_env \<Rightarrow> string \<Rightarrow> string list" where
  "scanner_files os folder_path =
     filter (\<lambda>entry. os_isfile os (os_join os folder_path entry))
       (case os_listdir os folder_path of None \<Rightarrow> [] | Some entries \<Rightarrow> entries)"

definition scanner_size :: "os_env \<Rightarrow> string \<Rightarrow> string \<Rightarrow> nat option" where
  "scanner_size os folder_path entry = os_getsize os (os_join os folder_path entry)"

section \<open>An example directory\<close>

text \<open>
  \<^verbatim>\<open>/data\<close> holds \<^verbatim>\<open>a.txt\<close>, \<^verbatim>\<open>b.TXT\<close>, the directory \<^verbatim>\<open>sub\<close> and \<^verbatim>\<open>c\<close>, listed in this
  order; the sizes are a parameter, and a file without a size is one whose size cannot be
  read. \<^verbatim>\<open>/locked\<close> may not be searched, so \<^verbatim>\<open>stat\<close> of \<^verbatim>\<open>/locked/in\<close> is refused. The names are
  ASCII, so \<^verbatim>\<open>str.lower()\<close> is \<open>ascii_lower\<close> on them.
\<close>

definition example_root :: path where
  "example_root = \<lparr>p_str = ''/data'', p_name = ''data'', p_suffix = []\<rparr>"

definition file_a :: path where
  "file_a = \<lparr>p_str = ''/data/a.txt'', p_name = ''a.txt'', p_suffix = ''.txt''\<rparr>"

definition file_b :: path where
  "file_b = \<lparr>p_str = ''/data/b.TXT'', p_name = ''b.TXT'', p_suffix = ''.TXT''\<rparr>"

definition dir_sub :: path where
  "dir_sub = \<lparr>p_str = ''/data/sub'', p_name = ''sub'', p_suffix = []\<rparr>"

definition file_c :: path where
  "file_c = \<lparr>p_str = ''/data/c'', p_name = ''c'', p_suffix = []\<rparr>"

definition example_fs :: "(path \<times> nat) list \<Rightarrow> filesystem" where
  "example_fs sizes =
     \<lparr>resolve = (\<lambda>s. if s = ''/data'' then Some example_root
                      else Some \<lparr>p_str = s, p_name = s, p_suffix = []\<rparr>),
      is_dir = (\<lambda>p. if p_str p = ''/locked/in'' then None
                     else Some (p = example_root \<or> p = dir_sub)),
      rglob = (\<lambda>p. if p = example_root then Some [file_a, file_b, dir_sub, file_c]
                    else Some []),
      is_file = (\<lambda>p. Some (p = file_a \<or> p = file_b \<or> p = file_c)),
      stat_size = map_of sizes,
      str_lower = ascii_lower\<rparr>"

text \<open>
  \<^verbatim>\<open>str.lower()\<close> on strings of ASCII and Latin-1 characters: besides A to Z, the letters
  U+00C0 to U+00DE other than the multiplication sign U+00D7 move up by 32; in UTF-8 these
  are the bytes 80 to 9E (other than 97) after the byte C3. The flag tells whether the byte
  before was C3.
\<close>

definition upper_latin1 :: "char \<Rightarrow> bool" where
  "upper_latin1 c \<longleftrightarrow> (let n = (of_char c :: nat) in 128 \<le> n \<and> n \<le> 158 \<and> n \<noteq> 151)"

fun latin1_lower_from :: "bool \<Rightarrow> string \<Rightarrow> string" where
  "latin1_lower_from after_c3 [] = []"
| "latin1_lower_from after_c3 (c # s) =
     (if after_c3 \<and> upper_latin1 c then char_of ((of_char c :: nat) + 32) else ascii_lower_char c)
     # latin1_lower_from (c = CHR 0xC3) s"

definition latin1_lower :: "string \<Rightarrow> string" where
  "latin1_lower s = latin1_lower_from False s"

definition latin1_fs :: filesystem where
  "latin1_fs = (example_fs [])\<lparr>str_lower := latin1_lower\<rparr>"

text \<open>The same directory when \<^verbatim>\<open>stat\<close> of \<^verbatim>\<open>b.TXT\<close> is refused to \<^verbatim>\<open>is_file()\<close> as well.\<close>

definition denied_fs :: "(path \<times> nat) list \<Rightarrow> filesystem" where
  "denied_fs sizes =
     (example_fs sizes)
       \<lparr>is_file := (\<lambda>p. if p = file_b then None else is_file (example_fs sizes) p)\<rparr>"

definition example_os :: "(string \<times> nat) list \<Rightarrow> os_env" where
  "example_os sizes =
     \<lparr>os_isdir = (\<lambda>s. s = ''/data''),
      os_listdir = (\<lambda>s. if s = ''/data'' then Some [''a.txt'', ''b.TXT'', ''sub'', ''c'']
                         else Some []),
      os_join = (\<lambda>a b. a @ ''/'' @ b),
      os_isfile = (\<lambda>s. s = ''/data/a.txt'' \<or> s = ''/data/b.TXT'' \<or> s = ''/data/c''),
      os_getsize = map_of sizes,
      os_splitext = (\<lambda>s. if s = ''a.txt'' then ''.txt'' else if s = ''b.TXT'' then ''.TXT'' else []),
      os_lower = ascii_lower\<rparr>"

text \<open>Two moments of one process: the same working directory, the clock a second apart.\<close>

definition example_world :: "string \<Rightarrow> world" where
  "example_world now = \<lparr>clock_text = now, os_abspath = (\<lambda>s. s)\<rparr>"


section \<open>Extension normalisation\<close>

lemma ascii_lower_char_idem: "ascii_lower_char (ascii_lower_char c) = ascii_lower_char c"
  by (simp add: ascii_lower_char_def Let_def)

lemma ascii_lower_idem: "ascii_lower (ascii_lower s) = ascii_lower s"
  by (simp add: ascii_lower_def ascii_lower_char_idem)

lemma ascii_lower_char_eq_dot: "ascii_lower_char c = CHR ''.'' \<longleftrightarrow> c = CHR ''.''"
proof (cases "65 \<le> (of_char c :: nat) \<and> (of_char c :: nat) \<le> 90")
  case True
  then have h: "(of_char (char_of (of_char c + 32 :: nat)) :: nat) = of_char c + 32"
    by (simp only: of_char_of) simp
  have "char_of (of_char c + 32 :: nat) \<noteq> CHR ''.''"
  proof
    assume "char_of (of_char c + 32 :: nat) = CHR ''.''"
    then have "(of_char (char_of (of_char c + 32 :: nat)) :: nat) = of_char CHR ''.''"
      by (simp only:)
    with h have "of_char c + 32 = (46::nat)" by simp
    with True show False by simp
  qed
  moreover have "c \<noteq> CHR ''.''" using True by auto
  ultimately show ?thesis using True by (simp add: ascii_lower_char_def Let_def)
next
  case False
  then show ?thesis by (auto simp add: ascii_lower_char_def Let_def)
qed

lemma startswith_dot_ascii_lower: "startswith_dot (ascii_lower s) = startswith_dot s"
  by (cases s) (simp_all add: startswith_dot_def ascii_lower_def ascii_lower_char_eq_dot)

text \<open>The Latin-1 lower-casing has the three properties of \<^verbatim>\<open>str.lower()\<close> used below.\<close>

lemma of_char_shifted:
  "(of_char c :: nat) \<le> 158 \<Longrightarrow> (of_char (char_of (of_char c + 32 :: nat)) :: nat) = of_char c + 32"
  by (simp only: of_char_of) simp

lemma ascii_lower_char_high:
  "128 \<le> (of_char c :: nat) \<Longrightarrow> ascii_lower_char c = c"
  by (simp add: ascii_lower_char_def Let_def)

lemma ascii_lower_char_low:
  "(of_char c :: nat) < 128 \<Longrightarrow> (of_char (ascii_lower_char c) :: nat) < 128"
proof (cases "65 \<le> (of_char c :: nat) \<and> (of_char c :: nat) \<le> 90")
  case True
  then have "(of_char c :: nat) \<le> 158" by simp
  then have "(of_char (char_of (of_char c + 32 :: nat)) :: nat) = of_char c + 32"
    by (rule of_char_shifted)
  with True show ?thesis by (simp add: ascii_lower_char_def Let_def)
next
  case False
  moreover assume "(of_char c :: nat) < 128"
  ultimately show ?thesis by (auto simp add: ascii_lower_char_def Let_def)
qed

lemma upper_latin1_ascii_lower_char: "upper_latin1 (ascii_lower_char c) \<longleftrightarrow> upper_latin1 c"
proof (cases "128 \<le> (of_char c :: nat)")
  case True
  then show ?thesis by (simp add: ascii_lower_char_high)
next
  case False
  then have "(of_char c :: nat) < 128" by simp
  then have "(of_char (ascii_lower_char c) :: nat) < 128" by (rule ascii_lower_char_low)
  with False show ?thesis by (simp add: upper_latin1_def Let_def)
qed

lemma ascii_lower_char_eq_c3: "ascii_lower_char c = CHR 0xC3 \<longleftrightarrow> c = CHR 0xC3"
proof (cases "128 \<le> (of_char c :: nat)")
  case True
  then show ?thesis by (simp add: ascii_lower_char_high)
next
  case False
  then have low: "(of_char c :: nat) < 128" by simp
  then have "(of_char (ascii_lower_char c) :: nat) < 128" by (rule ascii_lower_char_low)
  then have "ascii_lower_char c \<noteq> CHR 0xC3" by auto
  moreover from low have "c \<noteq> CHR 0xC3" by auto
  ultimately show ?thesis by simp
qed

lemma shifted_facts:
  assumes "upper_latin1 c"
  shows "\<not> upper_latin1 (char_of (of_char c + 32 :: nat))"
    and "char_of (of_char c + 32 :: nat) \<noteq> CHR 0xC3"
    and "ascii_lower_char (char_of (of_char c + 32 :: nat)) = char_of (of_char c + 32 :: nat)"
    and "c \<noteq> CHR 0xC3"
    and "c \<noteq> CHR ''.''"
    and "char_of (of_char c + 32 :: nat) \<noteq> CHR ''.''"
proof -
  from assms have range: "128 \<le> (of_char c :: nat)" "(of_char c :: nat) \<le> 158"
    by (simp_all add: upper_latin1_def Let_def)
  from range(2) have v: "(of_char (char_of (of_char c + 32 :: nat)) :: nat) = of_char c + 32"
    by (rule of_char_shifted)
  from v range show "\<not> upper_latin1 (char_of (of_char c + 32 :: nat))"
    by (simp add: upper_latin1_def Let_def)
  show "char_of (of_char c + 32 :: nat) \<noteq> CHR 0xC3"
  proof
    assume "char_of (of_char c + 32 :: nat) = CHR 0xC3"
    then have "(of_char (char_of (of_char c + 32 :: nat)) :: nat) = of_char (CHR 0xC3)"
      by (simp only:)
    with v range show False by simp
  qed
  from v range show "ascii_lower_char (char_of (of_char c + 32 :: nat)) = char_of (of_char c + 32 :: nat)"
    by (simp add: ascii_lower_char_def Let_def)
  from range show "c \<noteq> CHR 0xC3" by auto
  from range show "c \<noteq> CHR ''.''" by auto
  show "char_of (of_char c + 32 :: nat) \<noteq> CHR ''.''"
  proof
    assume "char_of (of_char c + 32 :: nat) = CHR ''.''"
    then have "(of_char (char_of (of_char c + 32 :: nat)) :: nat) = of_char (CHR ''.'')"
      by (simp only:)
    with v range show False by simp
  qed
qed

lemma latin1_lower_from_idem:
  "latin1_lower_from p (latin1_lower_from p s) = latin1_lower_from p s"
proof (induction s arbitrary: p)
  case Nil
  show ?case by simp
next
  case (Cons c s)
  show ?case
  proof (cases "p \<and> upper_latin1 c")
    case True
    then have u: "upper_latin1 c" by simp
    define d where "d = char_of (of_char c + 32 :: nat)"
    have first: "latin1_lower_from p (c # s) = d # latin1_lower_from False s"
      using True shifted_facts(4) [OF u] by (simp add: d_def)
    have "latin1_lower_from p (d # latin1_lower_from False s)
            = d # latin1_lower_from False (latin1_lower_from False s)"
      using shifted_facts(1-3) [OF u] by (simp add: d_def)
    with first Cons.IH [of False] show ?thesis by simp
  next
    case False
    define d where "d = ascii_lower_char c"
    have first: "latin1_lower_from p (c # s) = d # latin1_lower_from (c = CHR 0xC3) s"
      using False by (auto simp add: d_def)
    have n: "\<not> (p \<and> upper_latin1 d)"
      using False by (simp add: d_def upper_latin1_ascii_lower_char)
    have "latin1_lower_from p (d # latin1_lower_from (c = CHR 0xC3) s)
            = ascii_lower_char d
              # latin1_lower_from (d = CHR 0xC3) (latin1_lower_from (c = CHR 0xC3) s)"
      using n by auto
    also have "ascii_lower_char d = d" by (simp add: d_def ascii_lower_char_idem)
    also have "(d = CHR 0xC3) = (c = CHR 0xC3)" by (simp add: d_def ascii_lower_char_eq_c3)
    finally show ?thesis using first Cons.IH [of "c = CHR 0xC3"] by simp
  qed
qed

lemma latin1_lower_idem: "latin1_lower (latin1_lower s) = latin1_lower s"
  by (simp add: latin1_lower_def latin1_lower_from_idem)

lemma startswith_dot_latin1_lower: "startswith_dot (latin1_lower s) = startswith_dot s"
  by (cases s) (simp_all add: startswith_dot_def latin1_lower_def ascii_lower_char_eq_dot)

lemma latin1_lower_from_ascii: "is_ascii s \<Longrightarrow> latin1_lower_from p s = ascii_lower s"
proof (induction s arbitrary: p)
  case Nil
  show ?case by (simp add: ascii_lower_def)
next
  case (Cons c s)
  then have "(of_char c :: nat) < 128" and "is_ascii s" by (simp_all add: is_ascii_def)
  then have "\<not> upper_latin1 c" and "latin1_lower_from (c = CHR 0xC3) s = ascii_lower s"
    using Cons.IH by (simp_all add: upper_latin1_def Let_def)
  then show ?case by (simp add: ascii_lower_def)
qed

lemma latin1_lower_ascii: "is_ascii s \<Longrightarrow> latin1_lower s = ascii_lower s"
  by (simp add: latin1_lower_def latin1_lower_from_ascii)

lemma str_lower_latin1_fs: "str_lower latin1_fs = latin1_lower"
  by (simp add: latin1_fs_def)

lemma str_lower_example_fs: "str_lower (example_fs sizes) = ascii_lower"
  by (simp add: example_fs_def)

text \<open>The normalisation of a list.\<close>

lemma startswith_dot_add_dot: "startswith_dot (add_dot e)"
  by (simp add: add_dot_def startswith_dot_def)

lemma add_dot_fixed: "startswith_dot e \<Longrightarrow> add_dot e = e"
  by (simp add: add_dot_def)

lemma normalize_exts_Some: "normalize_exts fs (Some xs) = Some (map (normalize_ext fs) xs)"
  by (simp add: normalize_exts_def normalize_ext_def)

text \<open>
  Claim C6. \<^verbatim>\<open>str.lower()\<close> is the interpreter's; three facts about it are used: lower-casing
  twice is lower-casing once, it neither removes nor creates a leading dot, and on ASCII
  strings it moves A to Z to a to z. With these, for every extension string: normalising
  lower-cases it after putting a dot in front when there is none; the result starts with a
  dot and is in lower case, and normalising it again changes nothing, for one extension and
  for a whole list as \<^verbatim>\<open>scan_folder_filtered\<close> does it. \<^verbatim>\<open>.PY\<close>, \<^verbatim>\<open>py\<close> and \<^verbatim>\<open>.py\<close> all become
  \<^verbatim>\<open>.py\<close>.
\<close>

theorem extension_normalization:
  assumes idem: "\<And>s. str_lower fs (str_lower fs s) = str_lower fs s"
    and dot: "\<And>s. startswith_dot (str_lower fs s) = startswith_dot s"
    and ascii: "\<And>s. is_ascii s \<Longrightarrow> str_lower fs s = ascii_lower s"
  shows "normalize_ext fs (normalize_ext fs e) = normalize_ext fs e
   \<and> normalize_ext fs e = str_lower fs (if startswith_dot e then e else ''.'' @ e)
   \<and> startswith_dot (normalize_ext fs e)
   \<and> str_lower fs (normalize_ext fs e) = normalize_ext fs e
   \<and> normalize_ext fs ''.PY'' = ''.py''
   \<and> normalize_ext fs ''py'' = ''.py''
   \<and> normalize_ext fs ''.py'' = ''.py''
   \<and> normalize_exts fs (Some xs) = Some (map (normalize_ext fs) xs)
   \<and> normalize_exts fs (normalize_exts fs exts) = normalize_exts fs exts"
proof -
  have a: "normalize_ext fs e = str_lower fs (if startswith_dot e then e else ''.'' @ e)"
    by (simp add: normalize_ext_def add_dot_def)
  have b: "startswith_dot (normalize_ext fs x)" for x
    by (simp add: normalize_ext_def dot startswith_dot_add_dot)
  have c: "str_lower fs (normalize_ext fs e) = normalize_ext fs e"
    by (simp add: normalize_ext_def idem)
  have g: "normalize_ext fs (normalize_ext fs x) = normalize_ext fs x" for x
  proof -
    have "add_dot (normalize_ext fs x) = normalize_ext fs x" by (rule add_dot_fixed) (rule b)
    then have "normalize_ext fs (normalize_ext fs x) = str_lower fs (normalize_ext fs x)"
      by (simp add: normalize_ext_def)
    also have "\<dots> = normalize_ext fs x" by (simp add: normalize_ext_def idem)
    finally show ?thesis .
  qed
  have "is_ascii ''.PY''" and "is_ascii ''.py''" by (simp_all add: is_ascii_def)
  then have l1: "str_lower fs ''.PY'' = ascii_lower ''.PY''"
    and l2: "str_lower fs ''.py'' = ascii_lower ''.py''" by (simp_all only: ascii)
  have v1: "ascii_lower ''.PY'' = ''.py''" and v2: "ascii_lower ''.py'' = ''.py''"
    by code_simp+
  have d: "normalize_ext fs ''.PY'' = ''.py''"
    by (simp add: normalize_ext_def add_dot_def startswith_dot_def l1 v1)
  have e: "normalize_ext fs ''py'' = ''.py''"
    by (simp add: normalize_ext_def add_dot_def startswith_dot_def l2 v2)
  have f: "normalize_ext fs ''.py'' = ''.py''"
    by (simp add: normalize_ext_def add_dot_def startswith_dot_def l2 v2)
  have h: "normalize_exts fs (Some xs) = Some (map (normalize_ext fs) xs)"
    by (rule normalize_exts_Some)
  have i: "normalize_exts fs (normalize_exts fs exts) = normalize_exts fs exts"
  proof (cases exts)
    case None
    then show ?thesis by (simp add: normalize_exts_def)
  next
    case (Some ys)
    then show ?thesis by (simp add: normalize_exts_Some g)
  qed
  show ?thesis by (intro conjI a b c d e f g h i)
qed

text \<open>
  On the platform with the Latin-1 lower-casing, \<^verbatim>\<open>.\<close> followed by U+00C4 and \<^verbatim>\<open>B\<close> becomes
  \<^verbatim>\<open>.\<close> followed by U+00E4 and \<^verbatim>\<open>b\<close>.
\<close>

theorem extension_normalization_witness:
  "normalize_ext latin1_fs [CHR ''.'', CHR 0xC3, CHR 0x84, CHR ''B'']
     = [CHR ''.'', CHR 0xC3, CHR 0xA4, CHR ''b'']
   \<and> normalize_ext latin1_fs [CHR 0xC3, CHR 0x84, CHR ''B'']
     = [CHR ''.'', CHR 0xC3, CHR 0xA4, CHR ''b'']
   \<and> normalize_ext latin1_fs (normalize_ext latin1_fs [CHR 0xC3, CHR 0x84, CHR ''B''])
     = normalize_ext latin1_fs [CHR 0xC3, CHR 0x84, CHR ''B'']
   \<and> normalize_ext latin1_fs ''.PY'' = ''.py''"
proof -
  have h1: "str_lower latin1_fs (str_lower latin1_fs s) = str_lower latin1_fs s" for s
    by (simp add: str_lower_latin1_fs latin1_lower_idem)
  have h2: "startswith_dot (str_lower latin1_fs s) = startswith_dot s" for s
    by (simp add: str_lower_latin1_fs startswith_dot_latin1_lower)
  have h3: "is_ascii s \<Longrightarrow> str_lower latin1_fs s = ascii_lower s" for s
    by (simp add: str_lower_latin1_fs latin1_lower_ascii)
  have v1: "normalize_ext latin1_fs [CHR ''.'', CHR 0xC3, CHR 0x84, CHR ''B'']
     = [CHR ''.'', CHR 0xC3, CHR 0xA4, CHR ''b'']" by code_simp
  have v2: "normalize_ext latin1_fs [CHR 0xC3, CHR 0x84, CHR ''B'']
     = [CHR ''.'', CHR 0xC3, CHR 0xA4, CHR ''b'']" by code_simp
  from extension_normalization [where fs = latin1_fs and e = "[CHR 0xC3, CHR 0x84, CHR ''B'']",
      OF h1 h2 h3]
  have "normalize_ext latin1_fs (normalize_ext latin1_fs [CHR 0xC3, CHR 0x84, CHR ''B''])
          = normalize_ext latin1_fs [CHR 0xC3, CHR 0x84, CHR ''B'']"
    and "normalize_ext latin1_fs ''.PY'' = ''.py''"
    by blast+
  with v1 v2 show ?thesis by simp
qed

section \<open>The scanning loops\<close>

lemma count_file_simps:
  "folder (count_file fs e st) = folder st"
  "total_files (count_file fs e st) = total_files st + 1"
  "total_size (count_file fs e st) = total_size st + read_size fs e"
  "largest_size (count_file fs e st) = max (largest_size st) (read_size fs e)"
  "largest_file (count_file fs e st) =
     (if largest_size st \<le> read_size fs e then Some e else largest_file st)"
  "by_extension (count_file fs e st) =
     add_to_bucket (extension_of fs e) (read_size fs e) (by_extension st)"
  "scan_data.more (count_file fs e st) = scan_data.more st"
  by (simp_all add: count_file_def Let_def max_def)

lemma count_file_skipped: "skipped (count_file fs e st) = skipped st"
  by (simp add: count_file_def Let_def)

lemma add_to_bucket_count:
  "sum_list (map (\<lambda>kv. b_count (snd kv)) (add_to_bucket ext sz kvs))
     = sum_list (map (\<lambda>kv. b_count (snd kv)) kvs) + 1"
  by (induction ext sz kvs rule: add_to_bucket.induct) simp_all

lemma add_to_bucket_size:
  "sum_list (map (\<lambda>kv. b_size (snd kv)) (add_to_bucket ext sz kvs))
     = sum_list (map (\<lambda>kv. b_size (snd kv)) kvs) + sz"
  by (induction ext sz kvs rule: add_to_bucket.induct) simp_all

lemma add_to_bucket_keys:
  "set (map fst (add_to_bucket ext sz kvs)) = insert ext (set (map fst kvs))"
  by (induction ext sz kvs rule: add_to_bucket.induct) auto

lemma add_to_bucket_distinct:
  "distinct (map fst kvs) \<Longrightarrow> distinct (map fst (add_to_bucket ext sz kvs))"
proof (induction ext sz kvs rule: add_to_bucket.induct)
  case (1 ext sz)
  then show ?case by simp
next
  case (2 ext sz k b kvs)
  then show ?case using add_to_bucket_keys [of ext sz kvs] by auto
qed

lemma coherent_count_file: "coherent st \<Longrightarrow> coherent (count_file fs e st)"
  by (simp add: coherent_def count_file_simps add_to_bucket_count add_to_bucket_size
      add_to_bucket_distinct)

lemma coherent_skipped: "coherent (st\<lparr>skipped := n\<rparr>) = coherent st"
  by (simp add: coherent_def)

lemma coherent_initial: "coherent (initial_data r)" "coherent (initial_filtered r inc exc)"
  by (simp_all add: coherent_def initial_data_def initial_filtered_def)

lemma count_files_Nil: "count_files fs [] st = st"
  by (simp add: count_files_def)

lemma count_files_Cons: "count_files fs (e # es) st = count_files fs es (count_file fs e st)"
  by (simp add: count_files_def)

lemma count_files_append:
  "count_files fs (xs @ ys) st = count_files fs ys (count_files fs xs st)"
  by (simp add: count_files_def)

lemma count_files_snoc: "count_files fs (xs @ [e]) st = count_file fs e (count_files fs xs st)"
  by (simp add: count_files_def)

lemma count_file_skipped_update:
  "count_file fs e (st\<lparr>skipped := k\<rparr>) = (count_file fs e st)\<lparr>skipped := k\<rparr>"
  by (simp add: count_file_def Let_def)

lemma count_files_skipped_update:
  "count_files fs es (st\<lparr>skipped := k\<rparr>) = (count_files fs es st)\<lparr>skipped := k\<rparr>"
  by (induction es arbitrary: st) (simp_all add: count_files_Nil count_files_Cons count_file_skipped_update)

lemma count_files_skipped: "skipped (count_files fs es st) = skipped st"
  by (induction es arbitrary: st) (simp_all add: count_files_Nil count_files_Cons count_file_skipped)

lemma count_files_total_files: "total_files (count_files fs es st) = total_files st + length es"
  by (induction es arbitrary: st) (simp_all add: count_files_Nil count_files_Cons count_file_simps)

lemma count_files_total_size:
  "total_size (count_files fs es st) = total_size st + sum_list (map (read_size fs) es)"
  by (induction es arbitrary: st) (simp_all add: count_files_Nil count_files_Cons count_file_simps)

lemma count_files_folder: "folder (count_files fs es st) = folder st"
  by (induction es arbitrary: st) (simp_all add: count_files_Nil count_files_Cons count_file_simps)

lemma passes_None: "passes None None ext"
  by (simp add: passes_def truthy_def)

lemma answered_Nil: "answered fs []"
  by (simp add: answered_def)

lemma answered_Cons: "answered fs (e # es) \<longleftrightarrow> is_file fs e \<noteq> None \<and> answered fs es"
  by (simp add: answered_def)

lemma answered_append: "answered fs (xs @ ys) \<longleftrightarrow> answered fs xs \<and> answered fs ys"
  by (simp add: answered_def)

lemma answered_take: "answered fs es \<Longrightarrow> answered fs (take n es)"
  by (metis answered_append append_take_drop_id)

lemma regular_files_Nil: "regular_files fs [] = []"
  by (simp add: regular_files_def)

lemma regular_files_Cons:
  "regular_files fs (e # es)
     = (if is_file fs e = Some True then e # regular_files fs es else regular_files fs es)"
  by (simp add: regular_files_def)

lemma regular_files_append:
  "regular_files fs (xs @ ys) = regular_files fs xs @ regular_files fs ys"
  by (simp add: regular_files_def)

lemma scan_entry_cases:
  "scan_entry fs e st =
     (if is_file fs e = None then Inl OSError
      else if is_file fs e = Some True then Inr (count_file fs e st)
      else Inr st)"
  by (cases "is_file fs e") (auto simp add: scan_entry_def)

text \<open>
  The loop of \<^verbatim>\<open>scan_folder\<close>: it is left with the \<^verbatim>\<open>OSError\<close> of the first \<^verbatim>\<open>is_file()\<close> that
  raises; otherwise it counts the regular files in order.
\<close>

lemma scan_entries_count_files:
  "scan_entries fs es st =
     (if answered fs es then Inr (count_files fs (regular_files fs es) st) else Inl OSError)"
  by (induction es arbitrary: st)
    (simp_all add: count_files_Nil count_files_Cons scan_entry_cases answered_Nil answered_Cons
      regular_files_Nil regular_files_Cons)

lemma scan_entry_filtered_cases:
  "scan_entry_filtered fs incl excl e st =
     (if is_file fs e = None then Inl OSError
      else if is_file fs e \<noteq> Some True then Inr st
      else if passes incl excl (extension_of fs e) then Inr (count_file fs e st)
      else Inr (st\<lparr>skipped := skipped st + 1\<rparr>))"
  by (cases "is_file fs e") (auto simp add: scan_entry_filtered_def Let_def passes_def)

lemma scan_entries_filtered_count_files:
  "scan_entries_filtered fs incl excl es st =
     (if answered fs es
      then Inr ((count_files fs (retained fs incl excl es) st)
                 \<lparr>skipped := skipped st + length (dropped fs incl excl es)\<rparr>)
      else Inl OSError)"
proof (induction es arbitrary: st)
  case Nil
  then show ?case by (simp add: retained_def dropped_def count_files_Nil answered_Nil)
next
  case (Cons e es)
  show ?case
    by (simp add: Cons scan_entry_filtered_cases retained_def dropped_def count_files_Nil
        count_files_Cons count_files_skipped_update count_file_skipped answered_Cons)
qed

lemma retained_dropped_length:
  "length (retained fs incl excl es) + length (dropped fs incl excl es)
     = length (regular_files fs es)"
  by (induction es) (simp_all add: retained_def dropped_def regular_files_def)

lemma coherent_count_files: "coherent st \<Longrightarrow> coherent (count_files fs es st)"
  by (induction es arbitrary: st) (simp_all add: count_files_Nil count_files_Cons coherent_count_file)

lemma coherent_scan_entries:
  "coherent st \<Longrightarrow> scan_entries fs es st = Inr st' \<Longrightarrow> coherent st'"
  by (auto simp add: scan_entries_count_files coherent_count_files split: if_splits)

lemma coherent_scan_entries_filtered:
  "coherent st \<Longrightarrow> scan_entries_filtered fs inc exc es st = Inr st' \<Longrightarrow> coherent st'"
  by (auto simp add: scan_entries_filtered_count_files coherent_count_files coherent_skipped
      split: if_splits)

text \<open>The two scanners, case by case.\<close>

lemma walked_eq: "resolve fs p = Some r \<Longrightarrow> rglob fs r = Some es \<Longrightarrow> walked fs p = es"
  by (simp add: walked_def)

lemma scan_folder_cases:
  "scan_folder fs p =
     (case resolve fs p of
        None \<Rightarrow> Inl RuntimeError
      | Some r \<Rightarrow>
          if is_dir fs r = None then Inl OSError
          else if is_dir fs r = Some False then Inl (NotADirectoryError (''Not a directory: '' @ p))
          else if rglob fs r = None \<or> \<not> answered fs (walked fs p) then Inl OSError
          else Inr (count_files fs (regular_files fs (walked fs p)) (initial_data (p_str r))))"
  by (auto simp add: scan_folder_def scan_entries_count_files walked_def
      split: option.splits)

lemma scan_folder_filtered_cases:
  "scan_folder_filtered fs p incl excl =
     (case resolve fs p of
        None \<Rightarrow> Inl RuntimeError
      | Some r \<Rightarrow>
          if is_dir fs r = None then Inl OSError
          else if is_dir fs r = Some False then Inl (NotADirectoryError (''Not a directory: '' @ p))
          else if rglob fs r = None \<or> \<not> answered fs (walked fs p) then Inl OSError
          else Inr ((count_files fs
                       (retained fs (normalize_exts fs incl) (normalize_exts fs excl) (walked fs p))
                       (initial_filtered (p_str r) (normalize_exts fs incl) (normalize_exts fs excl)))
                     \<lparr>skipped := length (dropped fs (normalize_exts fs incl)
                                          (normalize_exts fs excl) (walked fs p))\<rparr>))"
  by (auto simp add: scan_folder_filtered_def scan_entries_filtered_count_files walked_def Let_def
      initial_filtered_def split: option.splits)

lemma scan_folder_Inr:
  "scan_folder fs p = Inr data \<longleftrightarrow>
     (\<exists>r. resolve fs p = Some r \<and> is_dir fs r = Some True \<and> rglob fs r \<noteq> None
          \<and> answered fs (walked fs p)
          \<and> data = count_files fs (regular_files fs (walked fs p)) (initial_data (p_str r)))"
  by (cases "resolve fs p") (auto simp add: scan_folder_cases)

lemma scan_folder_filtered_Inr:
  "scan_folder_filtered fs p incl excl = Inr data \<longleftrightarrow>
     (\<exists>r. resolve fs p = Some r \<and> is_dir fs r = Some True \<and> rglob fs r \<noteq> None
          \<and> answered fs (walked fs p)
          \<and> data = (count_files fs
                       (retained fs (normalize_exts fs incl) (normalize_exts fs excl) (walked fs p))
                       (initial_filtered (p_str r) (normalize_exts fs incl) (normalize_exts fs excl)))
                     \<lparr>skipped := length (dropped fs (normalize_exts fs incl)
                                          (normalize_exts fs excl) (walked fs p))\<rparr>)"
  by (cases "resolve fs p") (auto simp add: scan_folder_filtered_cases)

section \<open>The loop of \<^verbatim>\<open>folder_scanner.py\<close>\<close>

lemma scanner_entries_files:
  "scanner_entries os p es st
     = scanner_entries os p (filter (\<lambda>entry. os_isfile os (os_join os p entry)) es) st"
  by (induction es arbitrary: st) (simp_all add: Let_def split: option.splits)

lemma scanner_entries_append:
  "scanner_entries os p (xs @ ys) st
     = (case scanner_entries os p xs st of Inl err \<Rightarrow> Inl err
        | Inr st' \<Rightarrow> scanner_entries os p ys st')"
  by (induction xs arbitrary: st) (simp_all add: Let_def split: option.splits)

lemma scanner_entries_error:
  "scanner_entries os p es st = Inl err \<Longrightarrow> err = OSError"
  by (induction es arbitrary: st) (auto simp add: Let_def split: option.splits if_splits)

lemma scanner_entries_unreadable:
  "\<exists>entry \<in> set es. os_isfile os (os_join os p entry) \<and> os_getsize os (os_join os p entry) = None
     \<Longrightarrow> scanner_entries os p es st = Inl OSError"
proof (induction es arbitrary: st)
  case Nil
  then show ?case by simp
next
  case (Cons e es)
  show ?case
  proof (cases "os_isfile os (os_join os p e) \<and> os_getsize os (os_join os p e) = None")
    case True
    then show ?thesis by (simp add: Let_def)
  next
    case False
    then have "\<exists>entry \<in> set es. os_isfile os (os_join os p entry)
        \<and> os_getsize os (os_join os p entry) = None"
      using Cons.prems by auto
    then have "\<And>st. scanner_entries os p es st = Inl OSError" by (rule Cons.IH)
    then show ?thesis by (simp add: Let_def split: option.splits)
  qed
qed

lemma scanner_entries_file:
  assumes "os_isfile os (os_join os p e)" and "os_getsize os (os_join os p e) = Some n"
  shows "\<exists>st1. scanner_entries os p (e # es) st = scanner_entries os p es st1
           \<and> largest_file_size st1 = max (largest_file_size st) n
           \<and> largest_file_name st1
               = (if largest_file_size st < n then Some e else largest_file_name st)"
  using assms by (simp add: Let_def max_def) (intro conjI impI exI, (rule refl | simp)+)

lemma scanner_entries_file_size:
  assumes "scanner_entries os p (e # es) st = Inr st'" and "os_isfile os (os_join os p e)"
  shows "\<exists>n. os_getsize os (os_join os p e) = Some n"
  using assms by (cases "os_getsize os (os_join os p e)") (simp_all add: Let_def)

lemma scanner_largest_below:
  "scanner_entries os p es st = Inr st' \<Longrightarrow> largest_file_size st < s
     \<Longrightarrow> \<forall>g \<in> set es. os_isfile os (os_join os p g) \<longrightarrow>
           (\<forall>n. os_getsize os (os_join os p g) = Some n \<longrightarrow> n < s)
     \<Longrightarrow> largest_file_size st' < s"
proof (induction es arbitrary: st)
  case Nil
  then show ?case by simp
next
  case (Cons e es)
  show ?case
  proof (cases "os_isfile os (os_join os p e)")
    case False
    then show ?thesis using Cons by simp
  next
    case True
    from scanner_entries_file_size [OF Cons.prems(1) True]
    obtain n where n: "os_getsize os (os_join os p e) = Some n" ..
    with True Cons.prems(3) have ns: "n < s" by simp
    from scanner_entries_file [OF True n, of es st] obtain st1
      where st1: "scanner_entries os p (e # es) st = scanner_entries os p es st1"
        "largest_file_size st1 = max (largest_file_size st) n"
      by blast
    have "scanner_entries os p es st1 = Inr st'" using Cons.prems(1) st1(1) by simp
    moreover have "largest_file_size st1 < s" using st1(2) ns Cons.prems(2) by simp
    moreover have "\<forall>g \<in> set es. os_isfile os (os_join os p g) \<longrightarrow>
           (\<forall>n. os_getsize os (os_join os p g) = Some n \<longrightarrow> n < s)"
      using Cons.prems(3) by simp
    ultimately show ?thesis by (rule Cons.IH)
  qed
qed

lemma scanner_largest_kept:
  "scanner_entries os p es st = Inr st'
     \<Longrightarrow> \<forall>g \<in> set es. os_isfile os (os_join os p g) \<longrightarrow>
           (\<forall>n. os_getsize os (os_join os p g) = Some n \<longrightarrow> n \<le> largest_file_size st)
     \<Longrightarrow> largest_file_name st' = largest_file_name st
         \<and> largest_file_size st' = largest_file_size st"
proof (induction es arbitrary: st)
  case Nil
  then show ?case by simp
next
  case (Cons e es)
  show ?case
  proof (cases "os_isfile os (os_join os p e)")
    case False
    then show ?thesis using Cons by simp
  next
    case True
    from scanner_entries_file_size [OF Cons.prems(1) True]
    obtain n where n: "os_getsize os (os_join os p e) = Some n" ..
    with True Cons.prems(2) have le: "n \<le> largest_file_size st" by simp
    from scanner_entries_file [OF True n, of es st] obtain st1
      where st1: "scanner_entries os p (e # es) st = scanner_entries os p es st1"
        "largest_file_size st1 = max (largest_file_size st) n"
        "largest_file_name st1
           = (if largest_file_size st < n then Some e else largest_file_name st)"
      by blast
    have same: "largest_file_size st1 = largest_file_size st"
      "largest_file_name st1 = largest_file_name st"
      using st1(2,3) le by simp_all
    have "scanner_entries os p es st1 = Inr st'" using Cons.prems(1) st1(1) by simp
    moreover have "\<forall>g \<in> set es. os_isfile os (os_join os p g) \<longrightarrow>
           (\<forall>n. os_getsize os (os_join os p g) = Some n \<longrightarrow> n \<le> largest_file_size st1)"
      using Cons.prems(2) same(1) by simp
    ultimately have "largest_file_name st' = largest_file_name st1
        \<and> largest_file_size st' = largest_file_size st1"
      by (rule Cons.IH)
    with same show ?thesis by simp
  qed
qed

lemma scanner_first_maximal:
  assumes res: "scanner_scan_folder os p = Inr data"
    and files: "scanner_files os p = pre @ f # post"
    and f: "scanner_size os p f = Some s" "0 < s"
    and pre: "\<forall>g \<in> set pre. \<forall>n. scanner_size os p g = Some n \<longrightarrow> n < s"
    and post: "\<forall>g \<in> set post. \<forall>n. scanner_size os p g = Some n \<longrightarrow> n \<le> s"
  shows "largest_file_name data = Some f \<and> largest_file_size data = s"
proof -
  have "\<forall>g \<in> set (scanner_files os p). os_isfile os (os_join os p g)"
    by (simp add: scanner_files_def)
  then have isfile: "\<forall>g \<in> set (pre @ f # post). os_isfile os (os_join os p g)"
    by (simp only: files)
  from res obtain es where es: "os_listdir os p = Some es"
    and res': "scanner_entries os p es initial_scanner = Inr data"
    by (auto simp add: scanner_scan_folder_def split: if_splits option.splits)
  have run: "scanner_entries os p (pre @ f # post) initial_scanner = Inr data"
    using res' files es scanner_entries_files [of os p es initial_scanner]
    by (simp add: scanner_files_def)
  then obtain st1 where st1: "scanner_entries os p pre initial_scanner = Inr st1"
    and rest: "scanner_entries os p (f # post) st1 = Inr data"
    by (auto simp add: scanner_entries_append split: sum.splits)
  have "largest_file_size initial_scanner < s" using f(2) by (simp add: initial_scanner_def)
  moreover have "\<forall>g \<in> set pre. os_isfile os (os_join os p g) \<longrightarrow>
           (\<forall>n. os_getsize os (os_join os p g) = Some n \<longrightarrow> n < s)"
    using pre by (simp add: scanner_size_def)
  ultimately have below: "largest_file_size st1 < s"
    using st1 by (intro scanner_largest_below [OF st1])
  have ff: "os_isfile os (os_join os p f)" using isfile by simp
  have fs: "os_getsize os (os_join os p f) = Some s" using f(1) by (simp add: scanner_size_def)
  from scanner_entries_file [OF ff fs, of post st1] obtain st2
    where st2: "scanner_entries os p (f # post) st1 = scanner_entries os p post st2"
      "largest_file_size st2 = max (largest_file_size st1) s"
      "largest_file_name st2
         = (if largest_file_size st1 < s then Some f else largest_file_name st1)"
    by blast
  have now: "largest_file_size st2 = s" "largest_file_name st2 = Some f"
    using st2(2,3) below by simp_all
  have "scanner_entries os p post st2 = Inr data" using rest st2(1) by simp
  moreover have "\<forall>g \<in> set post. os_isfile os (os_join os p g) \<longrightarrow>
           (\<forall>n. os_getsize os (os_join os p g) = Some n \<longrightarrow> n \<le> largest_file_size st2)"
    using post now(1) by (simp add: scanner_size_def)
  ultimately have "largest_file_name data = largest_file_name st2
      \<and> largest_file_size data = largest_file_size st2"
    by (rule scanner_largest_kept)
  with now show ?thesis by simp
qed

section \<open>Coherence of the buckets\<close>

text \<open>
  Claim C9. The counts of the buckets add up to \<open>total_files\<close> and their sizes to
  \<open>total_size\<close>, with one bucket per extension, after every prefix of the walk and in the
  result of both recursive scanners: in every state the loops reach, which are the states
  obtained by counting a list of files, and a prefix of the walk reaches one whenever the
  \<^verbatim>\<open>is_file()\<close> calls on it answer.
\<close>

theorem bucket_coherence:
  "(scan_entries fs (take n entries) (initial_data r) = Inr st \<longrightarrow> coherent st)
   \<and> (scan_entries_filtered fs incl excl (take n entries) (initial_filtered r incl excl)
        = Inr fstate \<longrightarrow> coherent fstate)
   \<and> (answered fs (take n entries) \<longrightarrow>
        (\<exists>st'. scan_entries fs (take n entries) (initial_data r) = Inr st' \<and> coherent st')
        \<and> (\<exists>st'. scan_entries_filtered fs incl excl (take n entries)
                    (initial_filtered r incl excl) = Inr st' \<and> coherent st'))
   \<and> coherent (count_files fs files (initial_data r))
   \<and> coherent (count_files fs files (initial_filtered r incl excl))
   \<and> (scan_folder fs p = Inr data \<longrightarrow> coherent data)
   \<and> (scan_folder_filtered fs p incl excl = Inr fdata \<longrightarrow> coherent fdata)"
proof -
  have a: "scan_entries fs es (initial_data r) = Inr st \<longrightarrow> coherent st" for es st
    using coherent_scan_entries [OF coherent_initial(1)] by blast
  have b: "scan_entries_filtered fs incl excl es (initial_filtered r incl excl) = Inr fstate
        \<longrightarrow> coherent fstate" for es fstate
    using coherent_scan_entries_filtered [OF coherent_initial(2)] by blast
  have c: "answered fs (take n entries) \<longrightarrow>
        (\<exists>st'. scan_entries fs (take n entries) (initial_data r) = Inr st' \<and> coherent st')
        \<and> (\<exists>st'. scan_entries_filtered fs incl excl (take n entries)
                    (initial_filtered r incl excl) = Inr st' \<and> coherent st')"
    by (simp add: scan_entries_count_files scan_entries_filtered_count_files
        coherent_count_files coherent_initial coherent_skipped)
  have d: "coherent (count_files fs files (initial_data r))"
    by (simp add: coherent_count_files coherent_initial)
  have e: "coherent (count_files fs files (initial_filtered r incl excl))"
    by (simp add: coherent_count_files coherent_initial)
  have f: "scan_folder fs p = Inr data \<longrightarrow> coherent data"
    by (auto simp add: scan_folder_Inr coherent_count_files coherent_initial)
  have g: "scan_folder_filtered fs p incl excl = Inr fdata \<longrightarrow> coherent fdata"
    by (auto simp add: scan_folder_filtered_Inr coherent_count_files coherent_initial
        coherent_skipped)
  show ?thesis by (intro conjI a b c d e f g)
qed

theorem bucket_coherence_witness:
  "scan_folder (example_fs [(file_a, 10), (file_b, 20), (file_c, 5)]) ''/data''
     = Inr \<lparr>folder = ''/data'', total_files = 3, total_size = 35, largest_file = Some file_b,
            largest_size = 20,
            by_extension = [(''.txt'', \<lparr>b_count = 2, b_size = 30\<rparr>),
                            (''(no extension)'', \<lparr>b_count = 1, b_size = 5\<rparr>)]\<rparr>
   \<and> coherent \<lparr>folder = ''/data'', total_files = 3, total_size = 35, largest_file = Some file_b,
            largest_size = 20,
            by_extension = [(''.txt'', \<lparr>b_count = 2, b_size = 30\<rparr>),
                            (''(no extension)'', \<lparr>b_count = 1, b_size = 5\<rparr>)]\<rparr>
   \<and> scan_folder_filtered (example_fs [(file_a, 10), (file_b, 20), (file_c, 5)]) ''/data''
       (Some [''TXT'']) None
     = Inr \<lparr>folder = ''/data'', total_files = 2, total_size = 30, largest_file = Some file_b,
            largest_size = 20, by_extension = [(''.txt'', \<lparr>b_count = 2, b_size = 30\<rparr>)],
            skipped = 1, filter_include = Some [''.txt''], filter_exclude = None\<rparr>
   \<and> coherent \<lparr>folder = ''/data'', total_files = 2, total_size = 30, largest_file = Some file_b,
            largest_size = 20, by_extension = [(''.txt'', \<lparr>b_count = 2, b_size = 30\<rparr>)],
            skipped = 1, filter_include = Some [''.txt''], filter_exclude = None\<rparr>"
proof -
  let ?fs = "example_fs [(file_a, 10), (file_b, 20), (file_c, 5)]"
  let ?d = "\<lparr>folder = ''/data'', total_files = 3, total_size = 35, largest_file = Some file_b,
            largest_size = 20,
            by_extension = [(''.txt'', \<lparr>b_count = 2, b_size = 30\<rparr>),
                            (''(no extension)'', \<lparr>b_count = 1, b_size = 5\<rparr>)]\<rparr>"
  let ?f = "\<lparr>folder = ''/data'', total_files = 2, total_size = 30, largest_file = Some file_b,
            largest_size = 20, by_extension = [(''.txt'', \<lparr>b_count = 2, b_size = 30\<rparr>)],
            skipped = 1, filter_include = Some [''.txt''], filter_exclude = None\<rparr>"
  have a: "scan_folder ?fs ''/data'' = Inr ?d" by code_simp
  have b: "scan_folder_filtered ?fs ''/data'' (Some [''TXT'']) None = Inr ?f" by code_simp
  from bucket_coherence [where fs = ?fs and p = "''/data''" and data = ?d and fdata = ?f
      and incl = "Some [''TXT'']" and excl = None] a b
  show ?thesis by blast
qed

section \<open>Files skipped by a filter\<close>

text \<open>
  Claim C10. In a filtered scan the aggregate is the one obtained by counting the retained
  files alone, and \<open>skipped\<close> grows by the number of dropped files: every regular file is
  either retained or skipped, once. A dropped file changes the \<open>skipped\<close> counter and
  nothing else.
\<close>

theorem skipped_entries_frame:
  "scan_entries_filtered fs incl excl entries st
     = (if answered fs entries
        then Inr ((count_files fs (retained fs incl excl entries) st)
                   \<lparr>skipped := skipped st + length (dropped fs incl excl entries)\<rparr>)
        else Inl OSError)
   \<and> (scan_entries_filtered fs incl excl entries st = Inr st' \<longrightarrow>
        total_files st' + skipped st'
          = total_files st + skipped st + length (regular_files fs entries))
   \<and> (is_file fs e = Some True \<and> \<not> passes incl excl (extension_of fs e) \<longrightarrow>
        scan_entry_filtered fs incl excl e st = Inr (st\<lparr>skipped := skipped st + 1\<rparr>))
   \<and> (scan_folder_filtered fs p incl excl = Inr data \<longrightarrow>
        total_files data + skipped data = length (regular_files fs (walked fs p)))"
proof -
  have a: "scan_entries_filtered fs incl excl entries st
     = (if answered fs entries
        then Inr ((count_files fs (retained fs incl excl entries) st)
                   \<lparr>skipped := skipped st + length (dropped fs incl excl entries)\<rparr>)
        else Inl OSError)"
    by (rule scan_entries_filtered_count_files)
  have b: "scan_entries_filtered fs incl excl entries st = Inr st' \<longrightarrow>
        total_files st' + skipped st'
          = total_files st + skipped st + length (regular_files fs entries)"
    using retained_dropped_length [of fs incl excl entries]
    by (auto simp add: a count_files_total_files split: if_splits)
  have c: "is_file fs e = Some True \<and> \<not> passes incl excl (extension_of fs e) \<longrightarrow>
        scan_entry_filtered fs incl excl e st = Inr (st\<lparr>skipped := skipped st + 1\<rparr>)"
    by (simp add: scan_entry_filtered_cases)
  have d: "scan_folder_filtered fs p incl excl = Inr data \<longrightarrow>
        total_files data + skipped data = length (regular_files fs (walked fs p))"
    using retained_dropped_length
      [of fs "normalize_exts fs incl" "normalize_exts fs excl" "walked fs p"]
    by (auto simp add: scan_folder_filtered_Inr count_files_total_files initial_filtered_def)
  show ?thesis by (intro conjI a b c d)
qed

theorem skipped_entries_frame_witness:
  "is_file (example_fs [(file_a, 10), (file_b, 20), (file_c, 5)]) file_c = Some True
   \<and> \<not> passes (Some [''.txt'']) None
         (extension_of (example_fs [(file_a, 10), (file_b, 20), (file_c, 5)]) file_c)
   \<and> scan_entry_filtered (example_fs [(file_a, 10), (file_b, 20), (file_c, 5)])
        (Some [''.txt'']) None file_c (initial_filtered ''/data'' (Some [''.txt'']) None)
     = Inr ((initial_filtered ''/data'' (Some [''.txt'']) None)\<lparr>skipped := 1\<rparr>)
   \<and> scan_folder_filtered (example_fs [(file_a, 10), (file_b, 20), (file_c, 5)]) ''/data''
       (Some [''.txt'']) None
     = Inr \<lparr>folder = ''/data'', total_files = 2, total_size = 30, largest_file = Some file_b,
            largest_size = 20, by_extension = [(''.txt'', \<lparr>b_count = 2, b_size = 30\<rparr>)],
            skipped = 1, filter_include = Some [''.txt''], filter_exclude = None\<rparr>
   \<and> (2::nat) + 1
     = length (regular_files (example_fs [(file_a, 10), (file_b, 20), (file_c, 5)])
         (walked (example_fs [(file_a, 10), (file_b, 20), (file_c, 5)]) ''/data''))"
proof -
  let ?fs = "example_fs [(file_a, 10), (file_b, 20), (file_c, 5)]"
  let ?st = "initial_filtered ''/data'' (Some [''.txt'']) None"
  let ?f = "\<lparr>folder = ''/data'', total_files = 2, total_size = 30, largest_file = Some file_b,
            largest_size = 20, by_extension = [(''.txt'', \<lparr>b_count = 2, b_size = 30\<rparr>)],
            skipped = 1, filter_include = Some [''.txt''], filter_exclude = None\<rparr>"
  have a: "is_file ?fs file_c = Some True" by code_simp
  have b: "\<not> passes (Some [''.txt'']) None (extension_of ?fs file_c)" by code_simp
  have c: "scan_folder_filtered ?fs ''/data'' (Some [''.txt'']) None = Inr ?f" by code_simp
  have d: "skipped ?st + 1 = 1" by (simp add: initial_filtered_def)
  from skipped_entries_frame [where fs = ?fs and incl = "Some [''.txt'']" and excl = None
      and st = ?st and e = file_c and p = "''/data''" and data = ?f] a b c d
  show ?thesis by simp
qed

section \<open>Include and exclude filters\<close>

lemma truthy_Some: "truthy (Some xs) \<longleftrightarrow> xs \<noteq> []"
  by (simp add: truthy_def)

lemma truthy_normalize_exts: "truthy (normalize_exts fs exts) = truthy exts"
  by (cases exts) (simp_all add: truthy_def normalize_exts_def)

lemma retained_include_exclude:
  assumes "truthy S"
  shows "length (retained fs S None es) + length (retained fs None S es)
           = length (regular_files fs es)"
  using assms
  by (induction es) (auto simp add: retained_def passes_def truthy_def regular_files_def)

lemma retained_unfiltered: "retained fs None None es = regular_files fs es"
  by (simp add: retained_def passes_None regular_files_def)

lemma normalize_exts_None: "normalize_exts fs None = None"
  by (simp add: normalize_exts_def)

lemma scan_folder_filtered_total_files:
  "scan_folder_filtered fs p incl excl = Inr data \<Longrightarrow>
     total_files data
       = length (retained fs (normalize_exts fs incl) (normalize_exts fs excl) (walked fs p))"
  by (auto simp add: scan_folder_filtered_Inr count_files_total_files initial_filtered_def)

lemma scan_folder_total_files:
  "scan_folder fs p = Inr data \<Longrightarrow>
     total_files data = length (regular_files fs (walked fs p))"
  by (auto simp add: scan_folder_Inr count_files_total_files initial_data_def)

text \<open>
  Claim C5. For a non-empty extension list \<open>S\<close>, a scan that includes \<open>S\<close> and a scan that
  excludes \<open>S\<close> retain between them every regular file once: their \<open>total_files\<close> add
  up to the \<open>total_files\<close> of the scan without a filter, which is also that of
  \<^verbatim>\<open>folder_report.scan_folder\<close>.
\<close>

theorem include_exclude_complementary:
  assumes "S \<noteq> []"
    and "scan_folder_filtered fs p (Some S) None = Inr included"
    and "scan_folder_filtered fs p None (Some S) = Inr excluded"
    and "scan_folder_filtered fs p None None = Inr unfiltered"
    and "scan_folder fs p = Inr plain"
  shows "total_files included + total_files excluded = total_files unfiltered
         \<and> total_files unfiltered = total_files plain"
proof -
  let ?es = "walked fs p"
  have t: "truthy (normalize_exts fs (Some S))"
    using assms(1) by (simp add: truthy_normalize_exts truthy_Some)
  have "total_files included = length (retained fs (normalize_exts fs (Some S)) None ?es)"
    using scan_folder_filtered_total_files [OF assms(2)] by (simp add: normalize_exts_None)
  moreover have "total_files excluded = length (retained fs None (normalize_exts fs (Some S)) ?es)"
    using scan_folder_filtered_total_files [OF assms(3)] by (simp add: normalize_exts_None)
  moreover have "total_files unfiltered = length (regular_files fs ?es)"
    using scan_folder_filtered_total_files [OF assms(4)]
    by (simp add: normalize_exts_None retained_unfiltered)
  moreover have "total_files plain = length (regular_files fs ?es)"
    using scan_folder_total_files [OF assms(5)] .
  ultimately show ?thesis using retained_include_exclude [OF t, of fs ?es] by simp
qed

theorem include_exclude_complementary_witness:
  "[''txt''] \<noteq> []
   \<and> scan_folder_filtered (example_fs [(file_a, 10), (file_b, 20), (file_c, 5)]) ''/data''
       (Some [''txt'']) None
     = Inr \<lparr>folder = ''/data'', total_files = 2, total_size = 30, largest_file = Some file_b,
            largest_size = 20, by_extension = [(''.txt'', \<lparr>b_count = 2, b_size = 30\<rparr>)],
            skipped = 1, filter_include = Some [''.txt''], filter_exclude = None\<rparr>
   \<and> scan_folder_filtered (example_fs [(file_a, 10), (file_b, 20), (file_c, 5)]) ''/data''
       None (Some [''txt''])
     = Inr \<lparr>folder = ''/data'', total_files = 1, total_size = 5, largest_file = Some file_c,
            largest_size = 5,
            by_extension = [(''(no extension)'', \<lparr>b_count = 1, b_size = 5\<rparr>)],
            skipped = 2, filter_include = None, filter_exclude = Some [''.txt'']\<rparr>
   \<and> scan_folder_filtered (example_fs [(file_a, 10), (file_b, 20), (file_c, 5)]) ''/data''
       None None
     = Inr \<lparr>folder = ''/data'', total_files = 3, total_size = 35, largest_file = Some file_b,
            largest_size = 20,
            by_extension = [(''.txt'', \<lparr>b_count = 2, b_size = 30\<rparr>),
                            (''(no extension)'', \<lparr>b_count = 1, b_size = 5\<rparr>)],
            skipped = 0, filter_include = None, filter_exclude = None\<rparr>
   \<and> (2::nat) + 1 = 3"
proof -
  let ?fs = "example_fs [(file_a, 10), (file_b, 20), (file_c, 5)]"
  let ?i = "\<lparr>folder = ''/data'', total_files = 2, total_size = 30, largest_file = Some file_b,
            largest_size = 20, by_extension = [(''.txt'', \<lparr>b_count = 2, b_size = 30\<rparr>)],
            skipped = 1, filter_include = Some [''.txt''], filter_exclude = None\<rparr>"
  let ?e = "\<lparr>folder = ''/data'', total_files = 1, total_size = 5, largest_file = Some file_c,
            largest_size = 5,
            by_extension = [(''(no extension)'', \<lparr>b_count = 1, b_size = 5\<rparr>)],
            skipped = 2, filter_include = None, filter_exclude = Some [''.txt'']\<rparr>"
  let ?u = "\<lparr>folder = ''/data'', total_files = 3, total_size = 35, largest_file = Some file_b,
            largest_size = 20,
            by_extension = [(''.txt'', \<lparr>b_count = 2, b_size = 30\<rparr>),
                            (''(no extension)'', \<lparr>b_count = 1, b_size = 5\<rparr>)],
            skipped = 0, filter_include = None, filter_exclude = None\<rparr>"
  let ?p = "\<lparr>folder = ''/data'', total_files = 3, total_size = 35, largest_file = Some file_b,
            largest_size = 20,
            by_extension = [(''.txt'', \<lparr>b_count = 2, b_size = 30\<rparr>),
                            (''(no extension)'', \<lparr>b_count = 1, b_size = 5\<rparr>)]\<rparr>"
  have s: "[''txt''] \<noteq> []" by simp
  have i: "scan_folder_filtered ?fs ''/data'' (Some [''txt'']) None = Inr ?i" by code_simp
  have e: "scan_folder_filtered ?fs ''/data'' None (Some [''txt'']) = Inr ?e" by code_simp
  have u: "scan_folder_filtered ?fs ''/data'' None None = Inr ?u" by code_simp
  have p: "scan_folder ?fs ''/data'' = Inr ?p" by code_simp
  from include_exclude_complementary [OF s i e u p] s i e u show ?thesis by simp
qed

section \<open>A root that is not a directory\<close>

lemma scan_folder_not_a_directory:
  "scan_folder fs p = Inl (NotADirectoryError msg) \<longleftrightarrow>
     (\<exists>r. resolve fs p = Some r \<and> is_dir fs r = Some False) \<and> msg = ''Not a directory: '' @ p"
  by (cases "resolve fs p") (auto simp add: scan_folder_cases)

lemma scan_folder_filtered_not_a_directory:
  "scan_folder_filtered fs p incl excl = Inl (NotADirectoryError msg) \<longleftrightarrow>
     (\<exists>r. resolve fs p = Some r \<and> is_dir fs r = Some False) \<and> msg = ''Not a directory: '' @ p"
  by (cases "resolve fs p") (auto simp add: scan_folder_filtered_cases)

lemma scanner_scan_folder_exit:
  "scanner_scan_folder os p = Inl (SystemExit n) \<longleftrightarrow> \<not> os_isdir os p \<and> n = 1"
proof (cases "os_isdir os p")
  case False
  then show ?thesis by (auto simp add: scanner_scan_folder_def)
next
  case True
  have "scanner_scan_folder os p \<noteq> Inl (SystemExit n)"
  proof (cases "os_listdir os p")
    case None
    with True show ?thesis by (simp add: scanner_scan_folder_def)
  next
    case (Some es)
    show ?thesis
    proof
      assume "scanner_scan_folder os p = Inl (SystemExit n)"
      with True Some have "scanner_entries os p es initial_scanner = Inl (SystemExit n)"
        by (simp add: scanner_scan_folder_def)
      then have "SystemExit n = OSError" by (rule scanner_entries_error)
      then show False by simp
    qed
  qed
  with True show ?thesis by simp
qed

text \<open>
  Claim C3, as amended. When \<^verbatim>\<open>is_dir()\<close> answers \<^verbatim>\<open>False\<close> for the resolved root (it does not
  exist or is not a directory), \<^verbatim>\<open>folder_report.scan_folder\<close> and \<^verbatim>\<open>scan_folder_filtered\<close> are
  left with \<^verbatim>\<open>NotADirectoryError\<close> and the path as it was passed, whatever the walk, the file
  tests and the sizes would answer or raise: nothing is enumerated and there is no result.
  This branch is taken in no other case: when \<^verbatim>\<open>is_dir()\<close> answers \<^verbatim>\<open>True\<close> the scanners
  return a result whose folder is the resolved root when the walk and every \<^verbatim>\<open>is_file()\<close>
  answer, and are left with the \<^verbatim>\<open>OSError\<close> of the walk or of \<^verbatim>\<open>is_file()\<close> otherwise. When
  \<^verbatim>\<open>is_dir()\<close> itself raises, its \<^verbatim>\<open>OSError\<close> leaves the scanners, and so does the
  \<^verbatim>\<open>RuntimeError\<close> of \<^verbatim>\<open>resolve()\<close>. \<^verbatim>\<open>folder_scanner.scan_folder\<close> exits with status 1, and
  does so exactly when \<^verbatim>\<open>os.path.isdir\<close> is false.
\<close>

theorem not_a_directory:
  "(resolve fs p = Some r \<and> is_dir fs r = Some False \<longrightarrow>
      scan_folder (fs\<lparr>rglob := listing, is_file := files, stat_size := sizes\<rparr>) p
        = Inl (NotADirectoryError (''Not a directory: '' @ p))
      \<and> scan_folder_filtered (fs\<lparr>rglob := listing, is_file := files, stat_size := sizes\<rparr>) p
          incl excl
        = Inl (NotADirectoryError (''Not a directory: '' @ p)))
   \<and> (scan_folder fs p = Inl (NotADirectoryError msg) \<longleftrightarrow>
        (\<exists>r'. resolve fs p = Some r' \<and> is_dir fs r' = Some False)
        \<and> msg = ''Not a directory: '' @ p)
   \<and> (scan_folder_filtered fs p incl excl = Inl (NotADirectoryError msg) \<longleftrightarrow>
        (\<exists>r'. resolve fs p = Some r' \<and> is_dir fs r' = Some False)
        \<and> msg = ''Not a directory: '' @ p)
   \<and> (resolve fs p = Some r \<and> is_dir fs r = Some True \<longrightarrow>
        scan_folder fs p \<noteq> Inl (NotADirectoryError msg)
        \<and> scan_folder_filtered fs p incl excl \<noteq> Inl (NotADirectoryError msg)
        \<and> (if rglob fs r \<noteq> None \<and> answered fs (walked fs p)
            then (\<exists>data. scan_folder fs p = Inr data \<and> folder data = p_str r)
                 \<and> (\<exists>fdata. scan_folder_filtered fs p incl excl = Inr fdata
                       \<and> folder fdata = p_str r)
            else scan_folder fs p = Inl OSError
                 \<and> scan_folder_filtered fs p incl excl = Inl OSError))
   \<and> (resolve fs p = Some r \<and> is_dir fs r = None \<longrightarrow>
        scan_folder fs p = Inl OSError \<and> scan_folder_filtered fs p incl excl = Inl OSError)
   \<and> (resolve fs p = None \<longrightarrow>
        scan_folder fs p = Inl RuntimeError
        \<and> scan_folder_filtered fs p incl excl = Inl RuntimeError)
   \<and> (scanner_scan_folder os p = Inl (SystemExit n) \<longleftrightarrow> \<not> os_isdir os p \<and> n = 1)"
proof -
  let ?fs' = "fs\<lparr>rglob := listing, is_file := files, stat_size := sizes\<rparr>"
  have a: "resolve fs p = Some r \<and> is_dir fs r = Some False \<longrightarrow>
      scan_folder ?fs' p = Inl (NotADirectoryError (''Not a directory: '' @ p))
      \<and> scan_folder_filtered ?fs' p incl excl
        = Inl (NotADirectoryError (''Not a directory: '' @ p))"
    by (simp add: scan_folder_not_a_directory scan_folder_filtered_not_a_directory)
  have b: "scan_folder fs p = Inl (NotADirectoryError msg) \<longleftrightarrow>
        (\<exists>r'. resolve fs p = Some r' \<and> is_dir fs r' = Some False)
        \<and> msg = ''Not a directory: '' @ p"
    by (rule scan_folder_not_a_directory)
  have c: "scan_folder_filtered fs p incl excl = Inl (NotADirectoryError msg) \<longleftrightarrow>
        (\<exists>r'. resolve fs p = Some r' \<and> is_dir fs r' = Some False)
        \<and> msg = ''Not a directory: '' @ p"
    by (rule scan_folder_filtered_not_a_directory)
  have d: "resolve fs p = Some r \<and> is_dir fs r = Some True \<longrightarrow>
        scan_folder fs p \<noteq> Inl (NotADirectoryError msg)
        \<and> scan_folder_filtered fs p incl excl \<noteq> Inl (NotADirectoryError msg)
        \<and> (if rglob fs r \<noteq> None \<and> answered fs (walked fs p)
            then (\<exists>data. scan_folder fs p = Inr data \<and> folder data = p_str r)
                 \<and> (\<exists>fdata. scan_folder_filtered fs p incl excl = Inr fdata
                       \<and> folder fdata = p_str r)
            else scan_folder fs p = Inl OSError
                 \<and> scan_folder_filtered fs p incl excl = Inl OSError)"
  proof (intro impI, elim conjE)
    assume r: "resolve fs p = Some r" and t: "is_dir fs r = Some True"
    have 1: "scan_folder fs p \<noteq> Inl (NotADirectoryError msg)"
      using r t by (simp add: scan_folder_not_a_directory)
    have 2: "scan_folder_filtered fs p incl excl \<noteq> Inl (NotADirectoryError msg)"
      using r t by (simp add: scan_folder_filtered_not_a_directory)
    have 3: "if rglob fs r \<noteq> None \<and> answered fs (walked fs p)
            then (\<exists>data. scan_folder fs p = Inr data \<and> folder data = p_str r)
                 \<and> (\<exists>fdata. scan_folder_filtered fs p incl excl = Inr fdata
                       \<and> folder fdata = p_str r)
            else scan_folder fs p = Inl OSError
                 \<and> scan_folder_filtered fs p incl excl = Inl OSError"
      using r t
      by (simp add: scan_folder_cases scan_folder_filtered_cases count_files_folder
          initial_data_def initial_filtered_def)
    from 1 2 3 show "scan_folder fs p \<noteq> Inl (NotADirectoryError msg)
        \<and> scan_folder_filtered fs p incl excl \<noteq> Inl (NotADirectoryError msg)
        \<and> (if rglob fs r \<noteq> None \<and> answered fs (walked fs p)
            then (\<exists>data. scan_folder fs p = Inr data \<and> folder data = p_str r)
                 \<and> (\<exists>fdata. scan_folder_filtered fs p incl excl = Inr fdata
                       \<and> folder fdata = p_str r)
            else scan_folder fs p = Inl OSError
                 \<and> scan_folder_filtered fs p incl excl = Inl OSError)"
      by (intro conjI)
  qed
  have e: "resolve fs p = Some r \<and> is_dir fs r = None \<longrightarrow>
        scan_folder fs p = Inl OSError \<and> scan_folder_filtered fs p incl excl = Inl OSError"
    by (simp add: scan_folder_cases scan_folder_filtered_cases)
  have f: "resolve fs p = None \<longrightarrow>
        scan_folder fs p = Inl RuntimeError
        \<and> scan_folder_filtered fs p incl excl = Inl RuntimeError"
    by (simp add: scan_folder_cases scan_folder_filtered_cases)
  have g: "scanner_scan_folder os p = Inl (SystemExit n) \<longleftrightarrow> \<not> os_isdir os p \<and> n = 1"
    by (rule scanner_scan_folder_exit)
  show ?thesis by (intro conjI a b c d e f g)
qed

theorem not_a_directory_witness:
  "resolve (example_fs []) ''/nowhere''
     = Some \<lparr>p_str = ''/nowhere'', p_name = ''/nowhere'', p_suffix = []\<rparr>
   \<and> is_dir (example_fs []) \<lparr>p_str = ''/nowhere'', p_name = ''/nowhere'', p_suffix = []\<rparr>
       = Some False
   \<and> scan_folder ((example_fs [])\<lparr>rglob := (\<lambda>q. None), is_file := (\<lambda>q. None),
         stat_size := (\<lambda>q. None)\<rparr>) ''/nowhere''
       = Inl (NotADirectoryError ''Not a directory: /nowhere'')
   \<and> scan_folder_filtered ((example_fs [])\<lparr>rglob := (\<lambda>q. None), is_file := (\<lambda>q. None),
         stat_size := (\<lambda>q. None)\<rparr>) ''/nowhere'' (Some [''py'']) None
       = Inl (NotADirectoryError ''Not a directory: /nowhere'')
   \<and> \<not> os_isdir (example_os []) ''/nowhere''
   \<and> scanner_scan_folder (example_os []) ''/nowhere'' = Inl (SystemExit 1)"
proof -
  let ?fs = "example_fs []"
  let ?r = "\<lparr>p_str = ''/nowhere'', p_name = ''/nowhere'', p_suffix = []\<rparr>"
  have a: "resolve ?fs ''/nowhere'' = Some ?r" by code_simp
  have b: "is_dir ?fs ?r = Some False" by code_simp
  have c: "\<not> os_isdir (example_os []) ''/nowhere''" by code_simp
  from not_a_directory [where fs = ?fs and p = "''/nowhere''" and r = ?r
      and listing = "\<lambda>q. None" and files = "\<lambda>q. None" and sizes = "\<lambda>q. None"
      and incl = "Some [''py'']" and excl = None and os = "example_os []" and n = 1] a b c
  have "scan_folder (?fs\<lparr>rglob := (\<lambda>q. None), is_file := (\<lambda>q. None),
         stat_size := (\<lambda>q. None)\<rparr>) ''/nowhere''
       = Inl (NotADirectoryError ''Not a directory: /nowhere'')
    \<and> scan_folder_filtered (?fs\<lparr>rglob := (\<lambda>q. None), is_file := (\<lambda>q. None),
         stat_size := (\<lambda>q. None)\<rparr>) ''/nowhere'' (Some [''py'']) None
       = Inl (NotADirectoryError ''Not a directory: /nowhere'')
    \<and> scanner_scan_folder (example_os []) ''/nowhere'' = Inl (SystemExit 1)"
    by simp
  with a b c show ?thesis by simp
qed

text \<open>
  \<^verbatim>\<open>/nowhere\<close> is not a directory and \<^verbatim>\<open>folder_scanner.scan_folder\<close> exits with status 1;
  \<^verbatim>\<open>/locked/in\<close> is not one either, \<^verbatim>\<open>is_dir()\<close> raises, and the recursive scanners are left
  with its \<^verbatim>\<open>OSError\<close>. Neither is a \<^verbatim>\<open>NotADirectoryError\<close> raised by the scanner.
\<close>

theorem scanner_exits_on_invalid_root:
  "\<not> os_isdir (example_os []) ''/nowhere''
   \<and> scanner_scan_folder (example_os []) ''/nowhere'' = Inl (SystemExit 1)
   \<and> scanner_scan_folder (example_os []) ''/nowhere''
       \<noteq> Inl (NotADirectoryError ''Not a directory: /nowhere'')
   \<and> is_dir (example_fs []) \<lparr>p_str = ''/locked/in'', p_name = ''/locked/in'', p_suffix = []\<rparr>
       = None
   \<and> scan_folder (example_fs []) ''/locked/in'' = Inl OSError
   \<and> scan_folder (example_fs []) ''/locked/in''
       \<noteq> Inl (NotADirectoryError ''Not a directory: /locked/in'')
   \<and> scan_folder_filtered (example_fs []) ''/locked/in'' None None = Inl OSError"
  by code_simp

section \<open>Sizes that cannot be read\<close>

lemma read_size_cases:
  "stat_size fs e = None \<Longrightarrow> read_size fs e = 0"
  "stat_size fs e = Some n \<Longrightarrow> read_size fs e = n"
  by (simp_all add: read_size_def)

lemma read_size_recovered:
  "read_size (fs\<lparr>stat_size := \<lambda>q. Some (read_size fs q)\<rparr>) = read_size fs"
  by (rule ext) (simp add: read_size_def)

lemma extension_of_sizes: "extension_of (fs\<lparr>stat_size := sizes\<rparr>) e = extension_of fs e"
  by (simp add: extension_of_def)

lemma count_file_recovered:
  "count_file (fs\<lparr>stat_size := \<lambda>q. Some (read_size fs q)\<rparr>) e st = count_file fs e st"
  by (simp add: count_file_def Let_def read_size_recovered extension_of_sizes)

lemma count_files_recovered:
  "count_files (fs\<lparr>stat_size := \<lambda>q. Some (read_size fs q)\<rparr>) es st = count_files fs es st"
  by (induction es arbitrary: st)
    (simp_all add: count_files_Nil count_files_Cons count_file_recovered)

lemma normalize_exts_sizes: "normalize_exts (fs\<lparr>stat_size := sizes\<rparr>) exts = normalize_exts fs exts"
  by (simp add: normalize_exts_def split: option.splits)

text \<open>What does not depend on the size reads.\<close>

lemma sizes_independent:
  "walked (fs\<lparr>stat_size := sizes\<rparr>) p = walked fs p"
  "answered (fs\<lparr>stat_size := sizes\<rparr>) es = answered fs es"
  "regular_files (fs\<lparr>stat_size := sizes\<rparr>) es = regular_files fs es"
  "retained (fs\<lparr>stat_size := sizes\<rparr>) incl excl es = retained fs incl excl es"
  "dropped (fs\<lparr>stat_size := sizes\<rparr>) incl excl es = dropped fs incl excl es"
  by (simp_all add: walked_def answered_def regular_files_def retained_def dropped_def
      extension_of_sizes split: option.splits)

lemma scan_folder_sizes_error:
  "scan_folder (fs\<lparr>stat_size := sizes\<rparr>) p = Inl err \<longleftrightarrow> scan_folder fs p = Inl err"
  by (cases "resolve fs p") (simp_all add: scan_folder_cases sizes_independent)

lemma scan_folder_filtered_sizes_error:
  "scan_folder_filtered (fs\<lparr>stat_size := sizes\<rparr>) p incl excl = Inl err
     \<longleftrightarrow> scan_folder_filtered fs p incl excl = Inl err"
  by (cases "resolve fs p")
    (simp_all add: scan_folder_filtered_cases sizes_independent normalize_exts_sizes)

lemma scan_folder_sizes_total_files:
  assumes "scan_folder (fs\<lparr>stat_size := sizes\<rparr>) p = Inr data'" and "scan_folder fs p = Inr data"
  shows "total_files data' = total_files data"
  using scan_folder_total_files [OF assms(1)] scan_folder_total_files [OF assms(2)]
  by (simp add: sizes_independent)

lemma scan_folder_filtered_sizes_total_files:
  assumes "scan_folder_filtered (fs\<lparr>stat_size := sizes\<rparr>) p incl excl = Inr data'"
    and "scan_folder_filtered fs p incl excl = Inr data"
  shows "total_files data' = total_files data \<and> skipped data' = skipped data"
  using assms
  by (auto simp add: scan_folder_filtered_Inr sizes_independent normalize_exts_sizes
      count_files_total_files initial_filtered_def)

text \<open>The first \<^verbatim>\<open>is_file()\<close> that raises ends both scans.\<close>

lemma not_answered: "e \<in> set es \<Longrightarrow> is_file fs e = None \<Longrightarrow> \<not> answered fs es"
  by (auto simp add: answered_def list_all_iff)

lemma is_file_failure_propagates:
  assumes "resolve fs p = Some r" and "is_dir fs r = Some True" and "rglob fs r = Some es"
    and "e \<in> set es" and "is_file fs e = None"
  shows "scan_folder fs p = Inl OSError" and "scan_folder_filtered fs p incl excl = Inl OSError"
proof -
  have "walked fs p = es" using assms(1,3) by (rule walked_eq)
  with not_answered [OF assms(4,5)] have "\<not> answered fs (walked fs p)" by simp
  with assms(1,2) show "scan_folder fs p = Inl OSError"
    and "scan_folder_filtered fs p incl excl = Inl OSError"
    by (simp_all add: scan_folder_cases scan_folder_filtered_cases)
qed

text \<open>
  Claim C4, as amended. In \<^verbatim>\<open>folder_report.scan_folder\<close> and \<^verbatim>\<open>scan_folder_filtered\<close> a file
  for which \<^verbatim>\<open>is_file()\<close> has answered \<^verbatim>\<open>True\<close> and whose \<^verbatim>\<open>entry.stat()\<close> then raises is counted
  with size 0: it adds one to \<open>total_files\<close> and to its bucket and nothing to \<open>total_size\<close>,
  and the loop goes on. The scans behave as if every failed size read had answered 0; which
  error, if any, leaves them, and how many files they count and skip, does not depend on the
  size reads; and they return a result, counting every retained file, whenever the root is
  a directory and the walk and every \<^verbatim>\<open>is_file()\<close> answer. The \<^verbatim>\<open>stat\<close> inside \<^verbatim>\<open>is_file()\<close> is not
  guarded: when it raises for an entry of the walk, the \<^verbatim>\<open>OSError\<close> leaves the scan.
  \<^verbatim>\<open>folder_scanner.scan_folder\<close> has no recovery at all.
\<close>

theorem size_read_failure_recovered:
  "(is_file fs e = Some True \<and> stat_size fs e = None \<longrightarrow>
      (\<exists>st'. scan_entry fs e st = Inr st'
         \<and> total_files st' = total_files st + 1
         \<and> total_size st' = total_size st
         \<and> by_extension st' = add_to_bucket (extension_of fs e) 0 (by_extension st)))
   \<and> (is_file fs e = Some True \<and> passes incl excl (extension_of fs e) \<and> stat_size fs e = None
      \<longrightarrow> (\<exists>fd'. scan_entry_filtered fs incl excl e fd = Inr fd'
         \<and> total_files fd' = total_files fd + 1
         \<and> total_size fd' = total_size fd
         \<and> by_extension fd' = add_to_bucket (extension_of fs e) 0 (by_extension fd)))
   \<and> scan_folder (fs\<lparr>stat_size := \<lambda>q. Some (read_size fs q)\<rparr>) p = scan_folder fs p
   \<and> scan_folder_filtered (fs\<lparr>stat_size := \<lambda>q. Some (read_size fs q)\<rparr>) p incl excl
       = scan_folder_filtered fs p incl excl
   \<and> (scan_folder (fs\<lparr>stat_size := sizes\<rparr>) p = Inl err \<longleftrightarrow> scan_folder fs p = Inl err)
   \<and> (scan_folder_filtered (fs\<lparr>stat_size := sizes\<rparr>) p incl excl = Inl err
        \<longleftrightarrow> scan_folder_filtered fs p incl excl = Inl err)
   \<and> (scan_folder (fs\<lparr>stat_size := sizes\<rparr>) p = Inr data' \<and> scan_folder fs p = Inr data
        \<longrightarrow> total_files data' = total_files data)
   \<and> (scan_folder_filtered (fs\<lparr>stat_size := sizes\<rparr>) p incl excl = Inr fdata'
        \<and> scan_folder_filtered fs p incl excl = Inr fdata
        \<longrightarrow> total_files fdata' = total_files fdata \<and> skipped fdata' = skipped fdata)
   \<and> (resolve fs p = Some r \<and> is_dir fs r = Some True \<and> rglob fs r = Some es
        \<and> answered fs es \<longrightarrow>
        (\<exists>data. scan_folder fs p = Inr data
           \<and> total_files data = length (regular_files fs es))
        \<and> (\<exists>data. scan_folder_filtered fs p incl excl = Inr data
           \<and> total_files data
               = length (retained fs (normalize_exts fs incl) (normalize_exts fs excl) es)))
   \<and> (resolve fs p = Some r \<and> is_dir fs r = Some True \<and> rglob fs r = Some es
        \<and> x \<in> set es \<and> is_file fs x = None \<longrightarrow>
        scan_folder fs p = Inl OSError \<and> scan_folder_filtered fs p incl excl = Inl OSError)
   \<and> (os_isdir os sp \<and> os_listdir os sp = Some names
        \<and> (\<exists>entry \<in> set names.
               os_isfile os (os_join os sp entry) \<and> os_getsize os (os_join os sp entry) = None)
        \<longrightarrow> scanner_scan_folder os sp = Inl OSError)"
proof -
  have a: "is_file fs e = Some True \<and> stat_size fs e = None \<longrightarrow>
      (\<exists>st'. scan_entry fs e st = Inr st'
         \<and> total_files st' = total_files st + 1
         \<and> total_size st' = total_size st
         \<and> by_extension st' = add_to_bucket (extension_of fs e) 0 (by_extension st))"
    by (simp add: scan_entry_cases count_file_simps read_size_cases)
  have b: "is_file fs e = Some True \<and> passes incl excl (extension_of fs e)
      \<and> stat_size fs e = None
      \<longrightarrow> (\<exists>fd'. scan_entry_filtered fs incl excl e fd = Inr fd'
         \<and> total_files fd' = total_files fd + 1
         \<and> total_size fd' = total_size fd
         \<and> by_extension fd' = add_to_bucket (extension_of fs e) 0 (by_extension fd))"
    by (simp add: scan_entry_filtered_cases count_file_simps read_size_cases)
  have c: "scan_folder (fs\<lparr>stat_size := \<lambda>q. Some (read_size fs q)\<rparr>) p = scan_folder fs p"
    by (cases "resolve fs p")
      (simp_all add: scan_folder_cases sizes_independent count_files_recovered)
  have d: "scan_folder_filtered (fs\<lparr>stat_size := \<lambda>q. Some (read_size fs q)\<rparr>) p incl excl
       = scan_folder_filtered fs p incl excl"
    by (cases "resolve fs p")
      (simp_all add: scan_folder_filtered_cases sizes_independent count_files_recovered
        normalize_exts_sizes)
  have e: "scan_folder (fs\<lparr>stat_size := sizes\<rparr>) p = Inl err \<longleftrightarrow> scan_folder fs p = Inl err"
    by (rule scan_folder_sizes_error)
  have f: "scan_folder_filtered (fs\<lparr>stat_size := sizes\<rparr>) p incl excl = Inl err
        \<longleftrightarrow> scan_folder_filtered fs p incl excl = Inl err"
    by (rule scan_folder_filtered_sizes_error)
  have g: "scan_folder (fs\<lparr>stat_size := sizes\<rparr>) p = Inr data' \<and> scan_folder fs p = Inr data
        \<longrightarrow> total_files data' = total_files data"
    using scan_folder_sizes_total_files by blast
  have h: "scan_folder_filtered (fs\<lparr>stat_size := sizes\<rparr>) p incl excl = Inr fdata'
        \<and> scan_folder_filtered fs p incl excl = Inr fdata
        \<longrightarrow> total_files fdata' = total_files fdata \<and> skipped fdata' = skipped fdata"
    using scan_folder_filtered_sizes_total_files by blast
  have i: "resolve fs p = Some r \<and> is_dir fs r = Some True \<and> rglob fs r = Some es
        \<and> answered fs es \<longrightarrow>
        (\<exists>data. scan_folder fs p = Inr data
           \<and> total_files data = length (regular_files fs es))
        \<and> (\<exists>data. scan_folder_filtered fs p incl excl = Inr data
           \<and> total_files data
               = length (retained fs (normalize_exts fs incl) (normalize_exts fs excl) es))"
  proof (intro impI, elim conjE)
    assume r: "resolve fs p = Some r" and t: "is_dir fs r = Some True"
      and l: "rglob fs r = Some es" and ans: "answered fs es"
    have w: "walked fs p = es" using r l by (rule walked_eq)
    show "(\<exists>data. scan_folder fs p = Inr data
           \<and> total_files data = length (regular_files fs es))
        \<and> (\<exists>data. scan_folder_filtered fs p incl excl = Inr data
           \<and> total_files data
               = length (retained fs (normalize_exts fs incl) (normalize_exts fs excl) es))"
      using r t l ans w
      by (simp add: scan_folder_cases scan_folder_filtered_cases count_files_total_files
          initial_data_def initial_filtered_def)
  qed
  have j: "resolve fs p = Some r \<and> is_dir fs r = Some True \<and> rglob fs r = Some es
        \<and> x \<in> set es \<and> is_file fs x = None \<longrightarrow>
        scan_folder fs p = Inl OSError \<and> scan_folder_filtered fs p incl excl = Inl OSError"
    using is_file_failure_propagates [of fs p r es x] by blast
  have k: "os_isdir os sp \<and> os_listdir os sp = Some names
        \<and> (\<exists>entry \<in> set names.
               os_isfile os (os_join os sp entry) \<and> os_getsize os (os_join os sp entry) = None)
        \<longrightarrow> scanner_scan_folder os sp = Inl OSError"
    using scanner_entries_unreadable [of names os sp initial_scanner]
    by (auto simp add: scanner_scan_folder_def)
  show ?thesis by (intro conjI a b c d e f g h i j k)
qed

theorem size_read_failure_recovered_witness:
  "is_file (example_fs [(file_a, 10), (file_b, 20)]) file_c = Some True
   \<and> passes None (Some [''.txt''])
       (extension_of (example_fs [(file_a, 10), (file_b, 20)]) file_c)
   \<and> stat_size (example_fs [(file_a, 10), (file_b, 20)]) file_c = None
   \<and> resolve (example_fs [(file_a, 10), (file_b, 20)]) ''/data'' = Some example_root
   \<and> is_dir (example_fs [(file_a, 10), (file_b, 20)]) example_root = Some True
   \<and> rglob (example_fs [(file_a, 10), (file_b, 20)]) example_root
       = Some [file_a, file_b, dir_sub, file_c]
   \<and> answered (example_fs [(file_a, 10), (file_b, 20)]) [file_a, file_b, dir_sub, file_c]
   \<and> scan_folder (example_fs [(file_a, 10), (file_b, 20)]) ''/data''
       = Inr \<lparr>folder = ''/data'', total_files = 3, total_size = 30, largest_file = Some file_b,
              largest_size = 20,
              by_extension = [(''.txt'', \<lparr>b_count = 2, b_size = 30\<rparr>),
                              (''(no extension)'', \<lparr>b_count = 1, b_size = 0\<rparr>)]\<rparr>
   \<and> scan_folder_filtered (example_fs [(file_a, 10), (file_b, 20)]) ''/data''
         None (Some [''.txt''])
       = Inr \<lparr>folder = ''/data'', total_files = 1, total_size = 0, largest_file = Some file_c,
              largest_size = 0,
              by_extension = [(''(no extension)'', \<lparr>b_count = 1, b_size = 0\<rparr>)],
              skipped = 2, filter_include = None, filter_exclude = Some [''.txt'']\<rparr>
   \<and> scan_entry (example_fs [(file_a, 10), (file_b, 20)]) file_c (initial_data ''/data'')
       = Inr \<lparr>folder = ''/data'', total_files = 1, total_size = 0, largest_file = Some file_c,
              largest_size = 0,
              by_extension = [(''(no extension)'', \<lparr>b_count = 1, b_size = 0\<rparr>)]\<rparr>
   \<and> is_file (denied_fs [(file_a, 10)]) file_b = None
   \<and> scan_folder (denied_fs [(file_a, 10)]) ''/data'' = Inl OSError
   \<and> os_isdir (example_os [(''/data/a.txt'', 10)]) ''/data''
   \<and> os_isfile (example_os [(''/data/a.txt'', 10)])
        (os_join (example_os [(''/data/a.txt'', 10)]) ''/data'' ''b.TXT'')
   \<and> os_getsize (example_os [(''/data/a.txt'', 10)])
        (os_join (example_os [(''/data/a.txt'', 10)]) ''/data'' ''b.TXT'') = None
   \<and> scanner_scan_folder (example_os [(''/data/a.txt'', 10)]) ''/data'' = Inl OSError"
proof -
  let ?fs = "example_fs [(file_a, 10), (file_b, 20)]"
  let ?dfs = "denied_fs [(file_a, 10)]"
  let ?os = "example_os [(''/data/a.txt'', 10)]"
  let ?es = "[file_a, file_b, dir_sub, file_c]"
  let ?one = "\<lparr>folder = ''/data'', total_files = 1, total_size = 0, largest_file = Some file_c,
              largest_size = 0,
              by_extension = [(''(no extension)'', \<lparr>b_count = 1, b_size = 0\<rparr>)]\<rparr>"
  have h: "os_isdir ?os ''/data''"
    "os_isfile ?os (os_join ?os ''/data'' ''b.TXT'')"
    "os_getsize ?os (os_join ?os ''/data'' ''b.TXT'') = None"
    "os_listdir ?os ''/data'' = Some [''a.txt'', ''b.TXT'', ''sub'', ''c'']"
    by code_simp+
  have a: "is_file ?fs file_c = Some True" by code_simp
  have b: "passes None (Some [''.txt'']) (extension_of ?fs file_c)" by code_simp
  have c: "stat_size ?fs file_c = None" by code_simp
  have d: "resolve ?fs ''/data'' = Some example_root" "is_dir ?fs example_root = Some True"
    "rglob ?fs example_root = Some ?es" "answered ?fs ?es"
    by code_simp+
  have d': "resolve ?dfs ''/data'' = Some example_root" "is_dir ?dfs example_root = Some True"
    "rglob ?dfs example_root = Some ?es" "is_file ?dfs file_b = None"
    by code_simp+
  have e: "scan_folder ?fs ''/data''
       = Inr \<lparr>folder = ''/data'', total_files = 3, total_size = 30, largest_file = Some file_b,
              largest_size = 20,
              by_extension = [(''.txt'', \<lparr>b_count = 2, b_size = 30\<rparr>),
                              (''(no extension)'', \<lparr>b_count = 1, b_size = 0\<rparr>)]\<rparr>"
    by code_simp
  have f: "scan_folder_filtered ?fs ''/data'' None (Some [''.txt''])
       = Inr \<lparr>folder = ''/data'', total_files = 1, total_size = 0, largest_file = Some file_c,
              largest_size = 0,
              by_extension = [(''(no extension)'', \<lparr>b_count = 1, b_size = 0\<rparr>)],
              skipped = 2, filter_include = None, filter_exclude = Some [''.txt'']\<rparr>"
    by code_simp
  have g: "scan_entry ?fs file_c (initial_data ''/data'') = Inr ?one" by code_simp
  note r = size_read_failure_recovered [where fs = ?fs and e = file_c
      and st = "initial_data ''/data''" and incl = None and excl = "Some [''.txt'']"
      and p = "''/data''" and r = example_root and es = ?es and os = ?os and sp = "''/data''"
      and names = "[''a.txt'', ''b.TXT'', ''sub'', ''c'']"]
  from r a c g have 1: "total_files ?one = total_files (initial_data ''/data'') + 1" by simp
  from r h have 2: "scanner_scan_folder ?os ''/data'' = Inl OSError" by simp
  from size_read_failure_recovered [where fs = ?dfs and p = "''/data''" and r = example_root
      and es = ?es and x = file_b] d'
  have 3: "scan_folder ?dfs ''/data'' = Inl OSError" by simp
  from a b c d e f g h(1-3) d'(4) 1 2 3 show ?thesis by simp
qed

text \<open>
  \<^verbatim>\<open>stat\<close> of \<^verbatim>\<open>b.TXT\<close> is refused: \<^verbatim>\<open>entry.stat()\<close> would raise, but \<^verbatim>\<open>entry.is_file()\<close> raises
  first and both recursive scans are left with its \<^verbatim>\<open>OSError\<close>. In \<^verbatim>\<open>folder_scanner.py\<close> the
  size of \<^verbatim>\<open>c\<close> cannot be read and the \<^verbatim>\<open>OSError\<close> of \<^verbatim>\<open>os.path.getsize\<close> leaves the scan.
\<close>

theorem size_read_failure_propagates:
  "stat_size (denied_fs [(file_a, 10), (file_c, 5)]) file_b = None
   \<and> is_file (denied_fs [(file_a, 10), (file_c, 5)]) file_b = None
   \<and> scan_folder (denied_fs [(file_a, 10), (file_c, 5)]) ''/data'' = Inl OSError
   \<and> scan_folder_filtered (denied_fs [(file_a, 10), (file_c, 5)]) ''/data'' None None
       = Inl OSError
   \<and> os_isfile (example_os [(''/data/a.txt'', 10), (''/data/b.TXT'', 20)]) ''/data/c''
   \<and> os_getsize (example_os [(''/data/a.txt'', 10), (''/data/b.TXT'', 20)]) ''/data/c'' = None
   \<and> scanner_scan_folder (example_os [(''/data/a.txt'', 10), (''/data/b.TXT'', 20)]) ''/data''
       = Inl OSError"
  by code_simp

section \<open>The largest file\<close>

lemma largest_size_bound:
  "\<forall>e \<in> set xs. read_size fs e \<le> b \<Longrightarrow> largest_size st \<le> b
     \<Longrightarrow> largest_size (count_files fs xs st) \<le> b"
  by (induction xs arbitrary: st) (simp_all add: count_files_Nil count_files_Cons count_file_simps)

lemma largest_kept:
  "\<forall>e \<in> set xs. read_size fs e < largest_size st
     \<Longrightarrow> largest_file (count_files fs xs st) = largest_file st
         \<and> largest_size (count_files fs xs st) = largest_size st"
  by (induction xs arbitrary: st)
    (simp_all add: count_files_Nil count_files_Cons count_file_simps max_def)

lemma last_maximal_file:
  assumes pre: "\<forall>g \<in> set pre. read_size fs g \<le> read_size fs f"
    and post: "\<forall>g \<in> set post. read_size fs g < read_size fs f"
    and st: "largest_size st \<le> read_size fs f"
  shows "largest_file (count_files fs (pre @ f # post) st) = Some f
         \<and> largest_size (count_files fs (pre @ f # post) st) = read_size fs f"
proof -
  let ?s1 = "count_files fs pre st"
  let ?s2 = "count_file fs f ?s1"
  have b: "largest_size ?s1 \<le> read_size fs f" using pre st by (rule largest_size_bound)
  then have f: "largest_file ?s2 = Some f" "largest_size ?s2 = read_size fs f"
    by (simp_all add: count_file_simps max_def)
  have "count_files fs (pre @ f # post) st = count_files fs post ?s2"
    by (simp add: count_files_append count_files_Cons)
  moreover have "\<forall>g \<in> set post. read_size fs g < largest_size ?s2" using post f(2) by simp
  ultimately show ?thesis using largest_kept [of post fs ?s2] f by simp
qed

lemma largest_invariant:
  assumes "largest_file st = None" and "largest_size st = 0"
  shows "(largest_file (count_files fs xs st) = None \<longleftrightarrow> xs = [])
         \<and> (\<forall>e. largest_file (count_files fs xs st) = Some e \<longrightarrow>
               e \<in> set xs \<and> largest_size (count_files fs xs st) = read_size fs e)"
proof (induction xs rule: rev_induct)
  case Nil
  then show ?case using assms by (simp add: count_files_Nil)
next
  case (snoc x xs)
  then show ?case using assms
    by (auto simp add: count_files_snoc count_files_Nil count_file_simps max_def)
qed

lemma scan_folder_as_count_files:
  "scan_folder fs p = Inr data \<Longrightarrow>
     \<exists>r. data = count_files fs (regular_files fs (walked fs p)) (initial_data r)"
  by (auto simp add: scan_folder_Inr)

lemma scan_folder_filtered_largest:
  assumes "scan_folder_filtered fs p incl excl = Inr data"
  shows "\<exists>r. largest_file data
           = largest_file (count_files fs
               (retained fs (normalize_exts fs incl) (normalize_exts fs excl) (walked fs p))
               (initial_filtered r (normalize_exts fs incl) (normalize_exts fs excl)))
         \<and> largest_size data
           = largest_size (count_files fs
               (retained fs (normalize_exts fs incl) (normalize_exts fs excl) (walked fs p))
               (initial_filtered r (normalize_exts fs incl) (normalize_exts fs excl)))"
  using assms by (auto simp add: scan_folder_filtered_Inr)

lemma initial_largest:
  "largest_file (initial_data r) = None" "largest_size (initial_data r) = 0"
  "largest_file (initial_filtered r incl excl) = None"
  "largest_size (initial_filtered r incl excl) = 0"
  by (simp_all add: initial_data_def initial_filtered_def)

text \<open>
  Claim C8. In the result of \<^verbatim>\<open>folder_report.scan_folder\<close> and of \<^verbatim>\<open>scan_folder_filtered\<close>,
  \<open>largest_file\<close> is \<open>None\<close> exactly when \<open>total_files\<close> is 0; otherwise it is one of the
  retained files and \<open>largest_size\<close> is the size counted for it, whatever the sizes are.
\<close>

theorem largest_file_none_iff_no_files:
  "(scan_folder fs p = Inr data \<longrightarrow>
      (largest_file data = None \<longleftrightarrow> total_files data = 0)
      \<and> (\<forall>e. largest_file data = Some e \<longrightarrow>
            e \<in> set (regular_files fs (walked fs p))
            \<and> largest_size data = read_size fs e))
   \<and> (scan_folder_filtered fs p incl excl = Inr fdata \<longrightarrow>
      (largest_file fdata = None \<longleftrightarrow> total_files fdata = 0)
      \<and> (\<forall>e. largest_file fdata = Some e \<longrightarrow>
            e \<in> set (retained fs (normalize_exts fs incl) (normalize_exts fs excl)
                      (walked fs p))
            \<and> largest_size fdata = read_size fs e))"
proof (intro conjI impI)
  assume a: "scan_folder fs p = Inr data"
  let ?xs = "regular_files fs (walked fs p)"
  from scan_folder_as_count_files [OF a] obtain r
    where d: "data = count_files fs ?xs (initial_data r)" by blast
  have n: "total_files data = length ?xs" using a by (rule scan_folder_total_files)
  note inv = largest_invariant [of "initial_data r" fs ?xs, OF initial_largest(1,2), folded d]
  show "largest_file data = None \<longleftrightarrow> total_files data = 0" using inv n by simp
  show "\<forall>e. largest_file data = Some e \<longrightarrow> e \<in> set ?xs \<and> largest_size data = read_size fs e"
    using inv by blast
next
  assume a: "scan_folder_filtered fs p incl excl = Inr fdata"
  let ?xs = "retained fs (normalize_exts fs incl) (normalize_exts fs excl) (walked fs p)"
  from scan_folder_filtered_largest [OF a] obtain r
    where l: "largest_file fdata = largest_file (count_files fs ?xs
                (initial_filtered r (normalize_exts fs incl) (normalize_exts fs excl)))"
      "largest_size fdata = largest_size (count_files fs ?xs
                (initial_filtered r (normalize_exts fs incl) (normalize_exts fs excl)))"
    by blast
  have n: "total_files fdata = length ?xs" using a by (rule scan_folder_filtered_total_files)
  note inv = largest_invariant
    [of "initial_filtered r (normalize_exts fs incl) (normalize_exts fs excl)" fs ?xs,
      OF initial_largest(3,4), folded l]
  show "largest_file fdata = None \<longleftrightarrow> total_files fdata = 0" using inv n by simp
  show "\<forall>e. largest_file fdata = Some e \<longrightarrow> e \<in> set ?xs \<and> largest_size fdata = read_size fs e"
    using inv by blast
qed

theorem largest_file_none_iff_no_files_witness:
  "scan_folder (example_fs []) ''/data''
     = Inr \<lparr>folder = ''/data'', total_files = 3, total_size = 0, largest_file = Some file_c,
            largest_size = 0,
            by_extension = [(''.txt'', \<lparr>b_count = 2, b_size = 0\<rparr>),
                            (''(no extension)'', \<lparr>b_count = 1, b_size = 0\<rparr>)]\<rparr>
   \<and> scan_folder_filtered (example_fs []) ''/data'' (Some [''py'']) None
     = Inr \<lparr>folder = ''/data'', total_files = 0, total_size = 0, largest_file = None,
            largest_size = 0, by_extension = [], skipped = 3,
            filter_include = Some [''.py''], filter_exclude = None\<rparr>
   \<and> file_c \<in> set (regular_files (example_fs []) (walked (example_fs []) ''/data''))
   \<and> read_size (example_fs []) file_c = 0"
proof -
  let ?fs = "example_fs []"
  let ?d = "\<lparr>folder = ''/data'', total_files = 3, total_size = 0, largest_file = Some file_c,
            largest_size = 0,
            by_extension = [(''.txt'', \<lparr>b_count = 2, b_size = 0\<rparr>),
                            (''(no extension)'', \<lparr>b_count = 1, b_size = 0\<rparr>)]\<rparr>"
  let ?f = "\<lparr>folder = ''/data'', total_files = 0, total_size = 0, largest_file = None,
            largest_size = 0, by_extension = [], skipped = 3,
            filter_include = Some [''.py''], filter_exclude = None\<rparr>"
  have a: "scan_folder ?fs ''/data'' = Inr ?d" by code_simp
  have b: "scan_folder_filtered ?fs ''/data'' (Some [''py'']) None = Inr ?f" by code_simp
  from largest_file_none_iff_no_files [of ?fs "''/data''" ?d "Some [''py'']" None ?f] a b
  have "file_c \<in> set (regular_files ?fs (walked ?fs ''/data''))
        \<and> 0 = read_size ?fs file_c"
    by simp
  with a b show ?thesis by simp
qed

text \<open>
  Claim C1, as amended. In \<^verbatim>\<open>folder_report.scan_folder\<close> and \<^verbatim>\<open>scan_folder_filtered\<close> the
  comparison is \<^verbatim>\<open>size >= largest_size\<close>: when no retained file is larger than \<open>f\<close> and every
  retained file visited after \<open>f\<close> is smaller, \<open>f\<close> is the largest file reported, so among
  files of equal maximal size the one visited last wins. \<^verbatim>\<open>folder_scanner.scan_folder\<close>
  compares with \<^verbatim>\<open>file_size > largest_file_size\<close>: when it returns, the largest file is the
  first one of maximal size, provided that size is not 0.
\<close>

theorem largest_file_tie_break:
  "(scan_folder fs p = Inr data
      \<and> regular_files fs (walked fs p) = pre @ f # post
      \<and> (\<forall>g \<in> set pre. read_size fs g \<le> read_size fs f)
      \<and> (\<forall>g \<in> set post. read_size fs g < read_size fs f)
      \<longrightarrow> largest_file data = Some f \<and> largest_size data = read_size fs f)
   \<and> (scan_folder_filtered fs p incl excl = Inr fdata
      \<and> retained fs (normalize_exts fs incl) (normalize_exts fs excl) (walked fs p)
          = fpre @ ff # fpost
      \<and> (\<forall>g \<in> set fpre. read_size fs g \<le> read_size fs ff)
      \<and> (\<forall>g \<in> set fpost. read_size fs g < read_size fs ff)
      \<longrightarrow> largest_file fdata = Some ff \<and> largest_size fdata = read_size fs ff)
   \<and> (scanner_scan_folder os sp = Inr sdata
      \<and> scanner_files os sp = spre @ sf # spost
      \<and> scanner_size os sp sf = Some s \<and> 0 < s
      \<and> (\<forall>g \<in> set spre. \<forall>n. scanner_size os sp g = Some n \<longrightarrow> n < s)
      \<and> (\<forall>g \<in> set spost. \<forall>n. scanner_size os sp g = Some n \<longrightarrow> n \<le> s)
      \<longrightarrow> largest_file_name sdata = Some sf \<and> largest_file_size sdata = s)"
proof -
  have one: "scan_folder fs p = Inr data
      \<and> regular_files fs (walked fs p) = pre @ f # post
      \<and> (\<forall>g \<in> set pre. read_size fs g \<le> read_size fs f)
      \<and> (\<forall>g \<in> set post. read_size fs g < read_size fs f)
      \<longrightarrow> largest_file data = Some f \<and> largest_size data = read_size fs f"
  proof (intro impI, elim conjE)
    assume a: "scan_folder fs p = Inr data"
      and xs: "regular_files fs (walked fs p) = pre @ f # post"
      and pre: "\<forall>g \<in> set pre. read_size fs g \<le> read_size fs f"
      and post: "\<forall>g \<in> set post. read_size fs g < read_size fs f"
    from scan_folder_as_count_files [OF a] xs obtain r
      where "data = count_files fs (pre @ f # post) (initial_data r)" by auto
    then show "largest_file data = Some f \<and> largest_size data = read_size fs f"
      using last_maximal_file [OF pre post, of "initial_data r"]
      by (simp add: initial_largest)
  qed
  have two: "scan_folder_filtered fs p incl excl = Inr fdata
      \<and> retained fs (normalize_exts fs incl) (normalize_exts fs excl) (walked fs p)
          = fpre @ ff # fpost
      \<and> (\<forall>g \<in> set fpre. read_size fs g \<le> read_size fs ff)
      \<and> (\<forall>g \<in> set fpost. read_size fs g < read_size fs ff)
      \<longrightarrow> largest_file fdata = Some ff \<and> largest_size fdata = read_size fs ff"
  proof (intro impI, elim conjE)
    assume a: "scan_folder_filtered fs p incl excl = Inr fdata"
      and xs: "retained fs (normalize_exts fs incl) (normalize_exts fs excl) (walked fs p)
                 = fpre @ ff # fpost"
      and pre: "\<forall>g \<in> set fpre. read_size fs g \<le> read_size fs ff"
      and post: "\<forall>g \<in> set fpost. read_size fs g < read_size fs ff"
    from scan_folder_filtered_largest [OF a] xs obtain r
      where l: "largest_file fdata = largest_file (count_files fs (fpre @ ff # fpost)
                  (initial_filtered r (normalize_exts fs incl) (normalize_exts fs excl)))"
        "largest_size fdata = largest_size (count_files fs (fpre @ ff # fpost)
                  (initial_filtered r (normalize_exts fs incl) (normalize_exts fs excl)))"
      by auto
    show "largest_file fdata = Some ff \<and> largest_size fdata = read_size fs ff"
      using l last_maximal_file [OF pre post,
          of "initial_filtered r (normalize_exts fs incl) (normalize_exts fs excl)"]
      by (simp add: initial_largest)
  qed
  have three: "scanner_scan_folder os sp = Inr sdata
      \<and> scanner_files os sp = spre @ sf # spost
      \<and> scanner_size os sp sf = Some s \<and> 0 < s
      \<and> (\<forall>g \<in> set spre. \<forall>n. scanner_size os sp g = Some n \<longrightarrow> n < s)
      \<and> (\<forall>g \<in> set spost. \<forall>n. scanner_size os sp g = Some n \<longrightarrow> n \<le> s)
      \<longrightarrow> largest_file_name sdata = Some sf \<and> largest_file_size sdata = s"
    using scanner_first_maximal [of os sp sdata spre sf spost s] by blast
  show ?thesis by (intro conjI one two three)
qed

theorem largest_file_tie_break_witness:
  "scan_folder (example_fs [(file_a, 20), (file_b, 20), (file_c, 5)]) ''/data''
     = Inr \<lparr>folder = ''/data'', total_files = 3, total_size = 45, largest_file = Some file_b,
            largest_size = 20,
            by_extension = [(''.txt'', \<lparr>b_count = 2, b_size = 40\<rparr>),
                            (''(no extension)'', \<lparr>b_count = 1, b_size = 5\<rparr>)]\<rparr>
   \<and> regular_files (example_fs [(file_a, 20), (file_b, 20), (file_c, 5)])
       (walked (example_fs [(file_a, 20), (file_b, 20), (file_c, 5)]) ''/data'')
     = [file_a] @ file_b # [file_c]
   \<and> read_size (example_fs [(file_a, 20), (file_b, 20), (file_c, 5)]) file_a = 20
   \<and> read_size (example_fs [(file_a, 20), (file_b, 20), (file_c, 5)]) file_b = 20
   \<and> read_size (example_fs [(file_a, 20), (file_b, 20), (file_c, 5)]) file_c = 5
   \<and> scan_folder_filtered (example_fs [(file_a, 20), (file_b, 20), (file_c, 5)]) ''/data''
       (Some [''txt'']) None
     = Inr \<lparr>folder = ''/data'', total_files = 2, total_size = 40, largest_file = Some file_b,
            largest_size = 20, by_extension = [(''.txt'', \<lparr>b_count = 2, b_size = 40\<rparr>)],
            skipped = 1, filter_include = Some [''.txt''], filter_exclude = None\<rparr>
   \<and> retained (example_fs [(file_a, 20), (file_b, 20), (file_c, 5)])
       (normalize_exts (example_fs [(file_a, 20), (file_b, 20), (file_c, 5)]) (Some [''txt'']))
       (normalize_exts (example_fs [(file_a, 20), (file_b, 20), (file_c, 5)]) None)
       (walked (example_fs [(file_a, 20), (file_b, 20), (file_c, 5)]) ''/data'')
     = [file_a] @ file_b # []
   \<and> scanner_files (example_os [(''/data/a.txt'', 20), (''/data/b.TXT'', 20), (''/data/c'', 5)])
       ''/data'' = [] @ ''a.txt'' # [''b.TXT'', ''c'']
   \<and> scanner_size (example_os [(''/data/a.txt'', 20), (''/data/b.TXT'', 20), (''/data/c'', 5)])
       ''/data'' ''a.txt'' = Some 20
   \<and> scanner_size (example_os [(''/data/a.txt'', 20), (''/data/b.TXT'', 20), (''/data/c'', 5)])
       ''/data'' ''b.TXT'' = Some 20
   \<and> scanner_size (example_os [(''/data/a.txt'', 20), (''/data/b.TXT'', 20), (''/data/c'', 5)])
       ''/data'' ''c'' = Some 5
   \<and> scanner_scan_folder
       (example_os [(''/data/a.txt'', 20), (''/data/b.TXT'', 20), (''/data/c'', 5)]) ''/data''
     = Inr \<lparr>sc_total_files = 3, sc_total_size = 45, largest_file_name = Some ''a.txt'',
            largest_file_size = 20, extensions = [(''.txt'', 2), (''(no extension)'', 1)]\<rparr>"
proof -
  let ?os = "example_os [(''/data/a.txt'', 20), (''/data/b.TXT'', 20), (''/data/c'', 5)]"
  let ?sd = "\<lparr>sc_total_files = 3, sc_total_size = 45, largest_file_name = Some ''a.txt'',
            largest_file_size = 20, extensions = [(''.txt'', 2), (''(no extension)'', 1)]\<rparr>"
  have sa: "scanner_scan_folder ?os ''/data'' = Inr ?sd" by code_simp
  have sb: "scanner_files ?os ''/data'' = [] @ ''a.txt'' # [''b.TXT'', ''c'']" by code_simp
  have sc: "scanner_size ?os ''/data'' ''a.txt'' = Some 20"
    "scanner_size ?os ''/data'' ''b.TXT'' = Some 20"
    "scanner_size ?os ''/data'' ''c'' = Some 5"
    by code_simp+
  have spre: "\<forall>g \<in> set []. \<forall>n. scanner_size ?os ''/data'' g = Some n \<longrightarrow> n < 20" by simp
  have spost: "\<forall>g \<in> set [''b.TXT'', ''c'']. \<forall>n. scanner_size ?os ''/data'' g = Some n \<longrightarrow> n \<le> 20"
    using sc by simp
  let ?fs = "example_fs [(file_a, 20), (file_b, 20), (file_c, 5)]"
  let ?d = "\<lparr>folder = ''/data'', total_files = 3, total_size = 45, largest_file = Some file_b,
            largest_size = 20,
            by_extension = [(''.txt'', \<lparr>b_count = 2, b_size = 40\<rparr>),
                            (''(no extension)'', \<lparr>b_count = 1, b_size = 5\<rparr>)]\<rparr>"
  let ?f = "\<lparr>folder = ''/data'', total_files = 2, total_size = 40, largest_file = Some file_b,
            largest_size = 20, by_extension = [(''.txt'', \<lparr>b_count = 2, b_size = 40\<rparr>)],
            skipped = 1, filter_include = Some [''.txt''], filter_exclude = None\<rparr>"
  have a: "scan_folder ?fs ''/data'' = Inr ?d" by code_simp
  have b: "regular_files ?fs (walked ?fs ''/data'') = [file_a] @ file_b # [file_c]"
    by code_simp
  have c: "read_size ?fs file_a = 20" "read_size ?fs file_b = 20" "read_size ?fs file_c = 5"
    by code_simp+
  have d: "scan_folder_filtered ?fs ''/data'' (Some [''txt'']) None = Inr ?f" by code_simp
  have e: "retained ?fs (normalize_exts ?fs (Some [''txt''])) (normalize_exts ?fs None)
             (walked ?fs ''/data'') = [file_a] @ file_b # []"
    by code_simp
  have pre: "\<forall>g \<in> set [file_a]. read_size ?fs g \<le> read_size ?fs file_b" using c by simp
  have post: "\<forall>g \<in> set [file_c]. read_size ?fs g < read_size ?fs file_b" using c by simp
  have fpost: "\<forall>g \<in> set []. read_size ?fs g < read_size ?fs file_b" by simp
  from largest_file_tie_break [where fs = ?fs and p = "''/data''" and data = ?d and pre = "[file_a]"
      and f = file_b and post = "[file_c]" and incl = "Some [''txt'']" and excl = None
      and fdata = ?f and fpre = "[file_a]" and ff = file_b and fpost = "[]"
      and os = ?os and sp = "''/data''" and sdata = ?sd and spre = "[]" and sf = "''a.txt''"
      and spost = "[''b.TXT'', ''c'']" and s = 20]
    a b d e pre post fpost sa sb sc(1) spre spost
  have "largest_file ?d = Some file_b \<and> largest_file ?f = Some file_b
        \<and> largest_file_name ?sd = Some ''a.txt''"
    by simp
  with a b c d e sa sb sc show ?thesis by simp
qed

theorem scanner_keeps_first_of_equal_files:
  "scanner_scan_folder
     (example_os [(''/data/a.txt'', 20), (''/data/b.TXT'', 20), (''/data/c'', 5)]) ''/data''
     = Inr \<lparr>sc_total_files = 3, sc_total_size = 45, largest_file_name = Some ''a.txt'',
            largest_file_size = 20, extensions = [(''.txt'', 2), (''(no extension)'', 1)]\<rparr>
   \<and> os_listdir (example_os [(''/data/a.txt'', 20), (''/data/b.TXT'', 20), (''/data/c'', 5)])
       ''/data'' = Some [''a.txt'', ''b.TXT'', ''sub'', ''c'']
   \<and> os_getsize (example_os [(''/data/a.txt'', 20), (''/data/b.TXT'', 20), (''/data/c'', 5)])
       ''/data/b.TXT'' = Some 20"
  by code_simp

section \<open>Byte-size formatting: properties\<close>

lemma round_half_even_of_int: "round_half_even (of_int i) = i"
  by (simp add: round_half_even_def)

lemma round_half_even_ge:
  assumes "of_int a \<le> x"
  shows "a \<le> round_half_even x"
proof -
  have "a \<le> \<lfloor>x\<rfloor>" using assms by (simp add: le_floor_iff)
  then show ?thesis by (auto simp: round_half_even_def Let_def)
qed

lemma round_half_even_le:
  assumes "x \<le> of_int b"
  shows "round_half_even x \<le> b"
proof -
  have fb: "\<lfloor>x\<rfloor> \<le> b" using assms by (simp add: floor_le_iff)
  show ?thesis
  proof (cases "\<lfloor>x\<rfloor> = b")
    case True
    then have "x = of_int b" using assms of_int_floor_le [of x] by simp
    then show ?thesis by (simp add: round_half_even_of_int)
  next
    case False
    with fb have "\<lfloor>x\<rfloor> + 1 \<le> b" by simp
    then show ?thesis by (auto simp: round_half_even_def Let_def)
  qed
qed

lemma exponent_bounds:
  assumes "1 \<le> (x::rat)"
  defines "e \<equiv> bitlen \<lfloor>x\<rfloor> - 1"
  shows "0 \<le> e" and "2 powi e \<le> x" and "x < 2 powi (e + 1)"
proof -
  have pos: "0 < \<lfloor>x\<rfloor>" using assms(1) by simp
  from bitlen_bounds [OF pos] have b: "2 ^ nat e \<le> \<lfloor>x\<rfloor>" "\<lfloor>x\<rfloor> < 2 ^ nat (bitlen \<lfloor>x\<rfloor>)"
    by (simp_all add: e_def)
  have "1 \<le> bitlen \<lfloor>x\<rfloor>" using pos by (simp add: bitlen_alt_def)
  then show e0: "0 \<le> e" by (simp add: e_def)
  have "(2::rat) ^ nat e = of_int (2 ^ nat e)" by simp
  also have "\<dots> \<le> of_int \<lfloor>x\<rfloor>" using b(1) by (simp only: of_int_le_iff)
  also have "\<dots> \<le> x" by simp
  finally show "2 powi e \<le> x" using e0 by (simp add: power_int_def)
  have n: "nat (bitlen \<lfloor>x\<rfloor>) = nat (e + 1)" by (simp add: e_def)
  have "x < of_int (2 ^ nat (e + 1))" using b(2) unfolding n by (simp only: floor_less_iff)
  then show "x < 2 powi (e + 1)" using e0 by (simp add: power_int_def)
qed

lemma to_double_range:
  assumes x: "1 \<le> (x::rat)"
  defines "e \<equiv> bitlen \<lfloor>x\<rfloor> - 1"
  defines "m \<equiv> round_half_even (x / 2 powi (e - 52))"
  shows "2 ^ 52 \<le> m" and "m \<le> 2 ^ 53"
proof -
  note eb = exponent_bounds [OF x, folded e_def]
  have up: "(0::rat) < 2 powi (e - 52)" by simp
  have "(2::rat) powi (52 + (e - 52)) = 2 powi 52 * 2 powi (e - 52)"
    by (rule power_int_add) simp
  then have lo: "of_int (2 ^ 52) \<le> x / 2 powi (e - 52)"
    using eb(2) up by (simp add: pos_le_divide_eq)
  have "(2::rat) powi (53 + (e - 52)) = 2 powi 53 * 2 powi (e - 52)"
    by (rule power_int_add) simp
  then have "x < 2 powi 53 * 2 powi (e - 52)"
    using eb(3) by (simp add: add.commute)
  then have hi: "x / 2 powi (e - 52) \<le> of_int (2 ^ 53)"
    using up by (simp add: pos_divide_le_eq)
  show "2 ^ 52 \<le> m" unfolding m_def by (rule round_half_even_ge [OF lo])
  show "m \<le> 2 ^ 53" unfolding m_def by (rule round_half_even_le [OF hi])
qed

lemma is_double_of_nat: "n < 2 ^ 53 \<Longrightarrow> is_double (of_nat n)"
  unfolding is_double_def by (rule exI [of _ "int n"], rule exI [of _ 0]) simp

lemma is_double_divide: "is_double x \<Longrightarrow> is_double (x / 2 ^ j)"
proof -
  assume "is_double x"
  then obtain m t where x: "x = of_int m * 2 powi t" and m: "0 \<le> m" "m < 2 ^ 53"
    unfolding is_double_def by blast
  have "x / 2 ^ j = of_int m * 2 powi (t - int j)"
    by (simp add: x power_int_diff)
  with m show ?thesis unfolding is_double_def by blast
qed

lemma to_double_exact:
  assumes d: "is_double x" and x: "1 \<le> x" and lt: "x < 2 ^ 1024"
  shows "to_double x = Inr x"
proof -
  define e where "e = bitlen \<lfloor>x\<rfloor> - 1"
  note eb = exponent_bounds [OF x, folded e_def]
  from d obtain m t where xm: "x = of_int m * 2 powi t" and m: "0 \<le> m" "m < 2 ^ 53"
    unfolding is_double_def by blast
  have "(of_int m :: rat) < of_int (2 ^ 53)" using m(2) by (simp only: of_int_less_iff)
  then have "(of_int m :: rat) < 2 powi 53" by simp
  then have "of_int m * 2 powi t < (2::rat) powi 53 * 2 powi t"
    by (rule mult_strict_right_mono) simp
  also have "\<dots> = 2 powi (53 + t)" by (rule power_int_add [symmetric]) simp
  finally have "(2::rat) powi e < 2 powi (53 + t)" using eb(2) xm by simp
  then have et: "e < 53 + t"
    using power_int_increasing [of "53 + t" e "2::rat"] by (cases "e < 53 + t") simp_all
  define s where "s = nat (t - e + 52)"
  have "x / 2 powi (e - 52) = of_int m * 2 powi (t - (e - 52))"
    by (simp add: xm power_int_diff)
  also have "t - (e - 52) = int s" using et by (simp add: s_def)
  finally have sc: "x / 2 powi (e - 52) = of_int (m * 2 ^ s)" by simp
  have "of_int (round_half_even (x / 2 powi (e - 52))) * 2 powi (e - 52) = x"
    unfolding sc round_half_even_of_int using sc by (simp add: field_simps)
  then show ?thesis using lt by (simp add: to_double_def Let_def e_def)
qed

lemma to_double_bounds:
  assumes lo: "2 ^ k \<le> (x::rat)" and hi: "x \<le> 2 ^ K" and K: "K < 1024"
  shows "\<exists>y. to_double x = Inr y \<and> 2 ^ k \<le> y \<and> y \<le> 2 ^ K \<and> is_double y"
proof -
  have x: "1 \<le> x" using lo one_le_power [of "2::rat" k] by linarith
  define e where "e = bitlen \<lfloor>x\<rfloor> - 1"
  define m where "m = round_half_even (x / 2 powi (e - 52))"
  define y where "y = of_int m * (2::rat) powi (e - 52)"
  note eb = exponent_bounds [OF x, folded e_def]
  note mr = to_double_range [OF x, folded e_def, folded m_def]
  have up: "(0::rat) < 2 powi (e - 52)" by simp
  have "(2::rat) powi int k < 2 powi (e + 1)" using lo eb(3) by simp
  then have ke: "int k \<le> e"
    using power_int_increasing [of "e + 1" "int k" "2::rat"] by (cases "int k \<le> e") simp_all
  have "(2::rat) powi e \<le> 2 powi int K" using hi eb(2) by simp
  then have eK: "e \<le> int K" by (rule power_int_le_imp_le_exp [rotated]) simp_all
  have split: "(2::rat) powi (52 + (e - 52)) = 2 powi 52 * 2 powi (e - 52)"
    by (rule power_int_add) simp
  have "(of_int (2 ^ 52) :: rat) \<le> of_int m" using mr(1) by (simp only: of_int_le_iff)
  then have "2 powi 52 * 2 powi (e - 52) \<le> y"
    unfolding y_def by (intro mult_right_mono) simp_all
  then have "2 powi e \<le> y" using split by simp
  moreover have "(2::rat) powi int k \<le> 2 powi e" using ke by (intro power_int_increasing) simp_all
  ultimately have ylo: "2 ^ k \<le> y" by simp
  define s where "s = nat (int K - e + 52)"
  have "(2::rat) powi (int s + (e - 52)) = 2 powi int s * 2 powi (e - 52)"
    by (rule power_int_add) simp
  moreover have "int s + (e - 52) = int K" using eK by (simp add: s_def)
  ultimately have Ks: "(2::rat) ^ K = 2 ^ s * 2 powi (e - 52)" by simp
  then have "x / 2 powi (e - 52) \<le> of_int (2 ^ s)"
    using hi up by (simp add: pos_divide_le_eq)
  then have "m \<le> 2 ^ s" unfolding m_def by (rule round_half_even_le)
  then have "(of_int m :: rat) \<le> of_int (2 ^ s)" by (simp only: of_int_le_iff)
  then have "y \<le> 2 ^ s * 2 powi (e - 52)"
    unfolding y_def by (intro mult_right_mono) simp_all
  then have yhi: "y \<le> 2 ^ K" using Ks by simp
  have "(2::rat) ^ K < 2 ^ 1024" using K by (intro power_strict_increasing) simp_all
  then have "y < 2 ^ 1024" using yhi by (rule le_less_trans [rotated])
  then have "\<not> 2 ^ 1024 \<le> y" by (simp only: not_le)
  then have td: "to_double x = Inr y"
    unfolding to_double_def Let_def e_def [symmetric] m_def [symmetric] y_def [symmetric]
    by (simp only: if_False)
  have "is_double y"
  proof (cases "m < 2 ^ 53")
    case True
    have "0 \<le> m" using mr(1) by simp
    with True y_def show ?thesis unfolding is_double_def by blast
  next
    case False
    then have m53: "m = 2 ^ 53" using mr(2) by simp
    have p: "(2::rat) powi (1 + (e - 52)) = 2 powi 1 * 2 powi (e - 52)"
      by (rule power_int_add) simp
    have "y = of_int (2 ^ 52) * (2 powi 1 * 2 powi (e - 52))"
      unfolding y_def m53 by simp
    then have "y = of_int (2 ^ 52) * 2 powi (1 + (e - 52))" by (simp only: p)
    moreover have "(0::int) \<le> 2 ^ 52" "(2::int) ^ 52 < 2 ^ 53" by simp_all
    ultimately show ?thesis unfolding is_double_def by blast
  qed
  with td ylo yhi show ?thesis by blast
qed

lemma is_double_div_1024: "is_double x \<Longrightarrow> is_double (x / 1024)"
  using is_double_divide [of x 10] by simp

lemma truediv_exact:
  assumes "is_double x" and "1024 \<le> x" and "x < 2 ^ 1024"
  shows "truediv x 1024 = Inr (x / 1024)"
proof -
  have "is_double (x / 1024)" using assms(1) by (rule is_double_div_1024)
  moreover have "1 \<le> x / 1024" using assms(2) by simp
  moreover have "x / 1024 < 2 ^ 1024" using assms(2,3) by simp
  ultimately show ?thesis unfolding truediv_def by (rule to_double_exact)
qed

lemma format_loop_stop:
  "x < 1024 \<Longrightarrow> format_loop (u # us) x = Inr (fmt2f x @ '' '' @ u)"
  by simp

lemma format_loop_step:
  assumes "is_double x" and "1024 \<le> x" and "x < 2 ^ 1024"
  shows "format_loop (u # us) x = format_loop us (x / 1024)"
  using assms(2) truediv_exact [OF assms] by simp

lemma digits_0: "digits 0 = ''0''"
  by (simp add: digits.simps digit_char_def)

lemma fmt2f_of_nat: "fmt2f (of_nat n) = digits n @ ''.00''"
proof -
  have "(of_nat n :: rat) * 100 = of_int (int (n * 100))" by simp
  then have "round_half_even (of_nat n * 100) = int (n * 100)"
    by (simp only: round_half_even_of_int)
  then have "nat (round_half_even (of_nat n * 100)) = n * 100"
    by (simp only: nat_int)
  then show ?thesis by (simp add: fmt2f_def Let_def digits_0)
qed

lemma format_loop_PB:
  "is_double x \<Longrightarrow> x < 2 ^ 1024 \<Longrightarrow> 1024 ^ length us \<le> x
     \<Longrightarrow> format_loop us x = Inr (fmt2f (x / 1024 ^ length us) @ '' PB'')"
proof (induction us arbitrary: x)
  case Nil
  then show ?case by simp
next
  case (Cons u us)
  have x: "1024 \<le> x"
    using Cons.prems(3) one_le_power [of "1024::rat" "length us"]
    by (simp add: mult_le_cancel_left1 order_trans [of 1024 "1024 * 1024 ^ length us" x])
  have step: "format_loop (u # us) x = format_loop us (x / 1024)"
    using Cons.prems(1) x Cons.prems(2) by (rule format_loop_step)
  have "is_double (x / 1024)" using Cons.prems(1) by (rule is_double_div_1024)
  moreover have "x / 1024 < 2 ^ 1024" using Cons.prems(2) x by simp
  moreover have "1024 ^ length us \<le> x / 1024" using Cons.prems(3) by (simp add: field_simps)
  ultimately have "format_loop us (x / 1024)
      = Inr (fmt2f (x / 1024 / 1024 ^ length us) @ '' PB'')"
    by (rule Cons.IH)
  with step show ?case by (simp add: field_simps)
qed

lemma format_loop_unit:
  "is_double x \<Longrightarrow> x < 2 ^ 1024 \<Longrightarrow> j < length us \<Longrightarrow> 1024 ^ j \<le> x \<Longrightarrow> x < 1024 ^ Suc j
     \<Longrightarrow> format_loop us x = Inr (fmt2f (x / 1024 ^ j) @ '' '' @ us ! j)"
proof (induction us arbitrary: x j)
  case Nil
  then show ?case by simp
next
  case (Cons u us)
  show ?case
  proof (cases j)
    case 0
    then show ?thesis using Cons.prems(5) by simp
  next
    case (Suc i)
    have x: "1024 \<le> x"
      using Cons.prems(4) one_le_power [of "1024::rat" i] unfolding Suc
      by (simp add: mult_le_cancel_left1 order_trans [of 1024 "1024 * 1024 ^ i" x])
    have step: "format_loop (u # us) x = format_loop us (x / 1024)"
      using Cons.prems(1) x Cons.prems(2) by (rule format_loop_step)
    have "is_double (x / 1024)" using Cons.prems(1) by (rule is_double_div_1024)
    moreover have "x / 1024 < 2 ^ 1024" using Cons.prems(2) x by simp
    moreover have "i < length us" using Cons.prems(3) Suc by simp
    moreover have "1024 ^ i \<le> x / 1024" using Cons.prems(4) Suc by (simp add: field_simps)
    moreover have "x / 1024 < 1024 ^ Suc i" using Cons.prems(5) Suc by (simp add: field_simps)
    ultimately have "format_loop us (x / 1024)
        = Inr (fmt2f (x / 1024 / 1024 ^ i) @ '' '' @ us ! i)"
      by (rule Cons.IH)
    with step show ?thesis by (simp add: Suc field_simps)
  qed
qed

lemma floor_rat_numeral: "\<lfloor>(numeral a :: rat) / numeral b\<rfloor> = numeral a div numeral b"
  using floor_divide_of_int_eq [of "numeral a" "numeral b", where ?'a = rat] by simp

lemmas format_eval = floor_rat_numeral round_half_even_def to_double_def truediv_def fmt2f_def
  Let_def digits.simps digit_char_def compute_bitlen format_size_def scanner_format_size_def

lemma of_nat_bounds:
  "a \<le> n \<Longrightarrow> (of_nat a :: rat) \<le> of_nat n"
  "n < b \<Longrightarrow> (of_nat n :: rat) < of_nat b"
  by simp_all

lemma format_size_exact:
  assumes "n < 2 ^ 53"
  shows "j < 5 \<Longrightarrow> 1024 ^ j \<le> n \<Longrightarrow> n < 1024 ^ Suc j \<Longrightarrow>
           format_size n
             = Inr (fmt2f (of_nat n / 1024 ^ j) @ '' '' @ [''B'', ''KB'', ''MB'', ''GB'', ''TB''] ! j)"
    and "1024 ^ 5 \<le> n \<Longrightarrow> format_size n = Inr (fmt2f (of_nat n / 1024 ^ 5) @ '' PB'')"
proof -
  have d: "is_double (of_nat n)" using assms by (rule is_double_of_nat)
  have "(of_nat n :: rat) < of_nat (2 ^ 53)" using assms by (rule of_nat_bounds(2))
  then have lt: "(of_nat n :: rat) < 2 ^ 1024" by simp
  {
    assume j: "j < 5" and lo: "1024 ^ j \<le> n" and hi: "n < 1024 ^ Suc j"
    have "(of_nat (1024 ^ j) :: rat) \<le> of_nat n" using lo by (rule of_nat_bounds(1))
    then have lo': "(1024 :: rat) ^ j \<le> of_nat n" by simp
    have "(of_nat n :: rat) < of_nat (1024 ^ Suc j)" using hi by (rule of_nat_bounds(2))
    then have hi': "(of_nat n :: rat) < 1024 ^ Suc j" by simp
    have "j < length [''B'', ''KB'', ''MB'', ''GB'', ''TB'']" using j by simp
    from format_loop_unit [OF d lt this lo' hi']
    show "format_size n
        = Inr (fmt2f (of_nat n / 1024 ^ j) @ '' '' @ [''B'', ''KB'', ''MB'', ''GB'', ''TB''] ! j)"
      by (simp only: format_size_def)
  }
  {
    assume lo: "1024 ^ 5 \<le> n"
    have "(of_nat (1024 ^ 5) :: rat) \<le> of_nat n" using lo by (rule of_nat_bounds(1))
    then have "(1024 :: rat) ^ length [''B'', ''KB'', ''MB'', ''GB'', ''TB''] \<le> of_nat n" by simp
    from format_loop_PB [OF d lt this]
    show "format_size n = Inr (fmt2f (of_nat n / 1024 ^ 5) @ '' PB'')"
      by (simp add: format_size_def)
  }
qed

lemma format_size_PB:
  assumes lo: "1024 ^ 5 \<le> n" and hi: "n < 2 ^ 1033"
  shows "\<exists>d. truediv (of_nat n) 1024 = Inr d \<and> 2 ^ 40 \<le> d \<and> is_double d
             \<and> format_size n = Inr (fmt2f (d / 1024 ^ 4) @ '' PB'')"
proof -
  have "(of_nat (1024 ^ 5) :: rat) \<le> of_nat n" using lo by (rule of_nat_bounds(1))
  then have lo': "(1125899906842624 :: rat) \<le> of_nat n" by simp
  have "(of_nat n :: rat) < of_nat (2 ^ 1033)" using hi by (rule of_nat_bounds(2))
  then have hi': "(of_nat n :: rat) < 2 ^ 1033" by simp
  have a: "(2::rat) ^ 40 \<le> of_nat n / 1024" using lo' by simp
  have "(of_nat n :: rat) / 1024 < 2 ^ 1033 / 1024" using hi' by (simp add: divide_strict_right_mono)
  also have "(2::rat) ^ 1033 / 1024 = 2 ^ 1023" by simp
  finally have b: "(of_nat n :: rat) / 1024 \<le> 2 ^ 1023" by simp
  from to_double_bounds [OF a b] obtain d
    where d: "to_double (of_nat n / 1024) = Inr d" "2 ^ 40 \<le> d" "d \<le> 2 ^ 1023" "is_double d"
    by auto
  have t: "truediv (of_nat n) 1024 = Inr d" using d(1) by (simp add: truediv_def)
  have big: "\<not> (of_nat n :: rat) < 1024" using lo' by simp
  have first: "format_size n = format_loop [''KB'', ''MB'', ''GB'', ''TB''] d"
    using big t by (simp add: format_size_def)
  have "d < 2 ^ 1024" using d(3) by (rule order_le_less_trans) simp
  moreover have "(1024 :: rat) ^ length [''KB'', ''MB'', ''GB'', ''TB''] \<le> d" using d(2) by simp
  ultimately have "format_loop [''KB'', ''MB'', ''GB'', ''TB''] d
      = Inr (fmt2f (d / 1024 ^ length [''KB'', ''MB'', ''GB'', ''TB'']) @ '' PB'')"
    using d(4) by (intro format_loop_PB)
  with first t d(2,4) show ?thesis by simp
qed

lemma format_size_examples:
  "format_size 0 = Inr ''0.00 B''"
  "format_size 1023 = Inr ''1023.00 B''"
  "format_size 1024 = Inr ''1.00 KB''"
  "format_size 1536 = Inr ''1.50 KB''"
  "format_size 1048576 = Inr ''1.00 MB''"
  "format_size (1024 ^ 5) = Inr ''1.00 PB''"
  "format_size (2000 * 1024 ^ 5) = Inr ''2000.00 PB''"
  by (simp_all add: format_eval)

lemma truediv_of_nat_total:
  assumes "c \<le> n" and "n < 2 ^ 1033" and "1024 \<le> c"
  shows "\<exists>d. truediv (of_nat n) (of_nat c) = Inr d"
proof -
  have c: "(1024 :: rat) \<le> of_nat c" using of_nat_bounds(1) [OF assms(3)] by simp
  have n: "(of_nat n :: rat) < 2 ^ 1033" using of_nat_bounds(2) [OF assms(2)] by simp
  have cn: "(of_nat c :: rat) \<le> of_nat n" using assms(1) by (rule of_nat_bounds(1))
  have lo: "(2::rat) ^ 0 \<le> of_nat n / of_nat c" using c cn by (simp add: pos_le_divide_eq)
  have "(of_nat n :: rat) / of_nat c \<le> of_nat n / 1024"
    using c by (intro divide_left_mono) simp_all
  also have "\<dots> \<le> 2 ^ 1033 / 1024" using n by (simp add: divide_right_mono)
  also have "\<dots> = 2 ^ 1023" by simp
  finally have hi: "(of_nat n :: rat) / of_nat c \<le> 2 ^ 1023" .
  from to_double_bounds [OF lo hi] show ?thesis by (auto simp add: truediv_def)
qed

lemma scanner_format_size_total:
  assumes "n < 2 ^ 1033"
  shows "\<exists>s. scanner_format_size n = Inr s"
proof -
  have a: "1024 \<le> n \<Longrightarrow> \<exists>d. truediv (of_nat n) 1024 = Inr d"
    using truediv_of_nat_total [of 1024 n] assms by simp
  have b: "1024 ^ 2 \<le> n \<Longrightarrow> \<exists>d. truediv (of_nat n) (1024 ^ 2) = Inr d"
    using truediv_of_nat_total [of "1024 ^ 2" n] assms by simp
  have c: "1024 ^ 3 \<le> n \<Longrightarrow> \<exists>d. truediv (of_nat n) (1024 ^ 3) = Inr d"
    using truediv_of_nat_total [of "1024 ^ 3" n] assms by simp
  show ?thesis
    unfolding scanner_format_size_def using a b c by (auto simp add: not_less)
qed

text \<open>
  Claim C2, as amended. \<^verbatim>\<open>folder_report.format_size\<close> divides by 1024 while the value is at
  least 1024, through B, KB, MB, GB and TB, and prints two decimals and the unit; from
  \<open>1024\<^sup>5\<close> on the unit is PB. Below \<open>2\<^sup>5\<^sup>3\<close> bytes every division is exact; above, the first
  quotient is rounded to a float, and from about \<open>2\<^sup>1\<^sup>0\<^sup>3\<^sup>4\<close> bytes the division overflows.
  \<^verbatim>\<open>folder_scanner.format_size\<close> is a different function: it prints a count below 1024
  as the bare integer, and every count from \<open>1024\<^sup>3\<close> on in GB.
\<close>

theorem format_size_units:
  "(j < 5 \<and> 1024 ^ j \<le> n \<and> n < 1024 ^ Suc j \<longrightarrow>
      format_size n
        = Inr (fmt2f (of_nat n / 1024 ^ j) @ '' '' @ [''B'', ''KB'', ''MB'', ''GB'', ''TB''] ! j))
   \<and> (n < 1024 \<longrightarrow> format_size n = Inr (digits n @ ''.00 B''))
   \<and> (1024 ^ 5 \<le> n \<and> n < 2 ^ 53 \<longrightarrow>
        format_size n = Inr (fmt2f (of_nat n / 1024 ^ 5) @ '' PB''))
   \<and> (1024 ^ 5 \<le> n \<and> n < 2 ^ 1033 \<longrightarrow>
        (\<exists>d. truediv (of_nat n) 1024 = Inr d \<and> 2 ^ 40 \<le> d
           \<and> format_size n = Inr (fmt2f (d / 1024 ^ 4) @ '' PB'')))
   \<and> format_size 0 = Inr ''0.00 B''
   \<and> format_size 1023 = Inr ''1023.00 B''
   \<and> format_size 1024 = Inr ''1.00 KB''
   \<and> format_size 1536 = Inr ''1.50 KB''
   \<and> format_size 1048576 = Inr ''1.00 MB''
   \<and> format_size (1024 ^ 5) = Inr ''1.00 PB''
   \<and> format_size (2000 * 1024 ^ 5) = Inr ''2000.00 PB''
   \<and> (n < 1024 \<longrightarrow> scanner_format_size n = Inr (digits n @ '' B''))
   \<and> (1024 ^ 3 \<le> n \<and> n < 2 ^ 1033 \<longrightarrow>
        (\<exists>d. truediv (of_nat n) (1024 ^ 3) = Inr d
           \<and> scanner_format_size n = Inr (fmt2f d @ '' GB'')))"
proof -
  have a: "j < 5 \<and> 1024 ^ j \<le> n \<and> n < 1024 ^ Suc j \<longrightarrow>
      format_size n
        = Inr (fmt2f (of_nat n / 1024 ^ j) @ '' '' @ [''B'', ''KB'', ''MB'', ''GB'', ''TB''] ! j)"
  proof (intro impI, elim conjE)
    assume j: "j < 5" and lo: "1024 ^ j \<le> n" and hi: "n < 1024 ^ Suc j"
    have "(1024::nat) ^ Suc j \<le> 1024 ^ 5" using j by (intro power_increasing) simp_all
    then have "n < 2 ^ 53" using hi by simp
    then show "format_size n
        = Inr (fmt2f (of_nat n / 1024 ^ j) @ '' '' @ [''B'', ''KB'', ''MB'', ''GB'', ''TB''] ! j)"
      using j lo hi by (rule format_size_exact(1))
  qed
  have b: "n < 1024 \<longrightarrow> format_size n = Inr (digits n @ ''.00 B'')"
  proof
    assume "n < 1024"
    then have "(of_nat n :: rat) < of_nat 1024" by (rule of_nat_bounds(2))
    then have "(of_nat n :: rat) < 1024" by simp
    then show "format_size n = Inr (digits n @ ''.00 B'')"
      by (simp add: format_size_def fmt2f_of_nat)
  qed
  have c: "1024 ^ 5 \<le> n \<and> n < 2 ^ 53 \<longrightarrow>
        format_size n = Inr (fmt2f (of_nat n / 1024 ^ 5) @ '' PB'')"
    using format_size_exact(2) [of n] by blast
  have d: "1024 ^ 5 \<le> n \<and> n < 2 ^ 1033 \<longrightarrow>
        (\<exists>d. truediv (of_nat n) 1024 = Inr d \<and> 2 ^ 40 \<le> d
           \<and> format_size n = Inr (fmt2f (d / 1024 ^ 4) @ '' PB''))"
    using format_size_PB [of n] by blast
  have e: "n < 1024 \<longrightarrow> scanner_format_size n = Inr (digits n @ '' B'')"
    by (simp add: scanner_format_size_def)
  have f: "1024 ^ 3 \<le> n \<and> n < 2 ^ 1033 \<longrightarrow>
        (\<exists>d. truediv (of_nat n) (1024 ^ 3) = Inr d
           \<and> scanner_format_size n = Inr (fmt2f d @ '' GB''))"
    using truediv_of_nat_total [of "1024 ^ 3" n] by (auto simp add: scanner_format_size_def)
  show ?thesis by (intro conjI a b c d format_size_examples e f)
qed

theorem format_size_units_witness:
  "(1::nat) < 5 \<and> 1024 ^ 1 \<le> (1536::nat) \<and> (1536::nat) < 1024 ^ Suc 1
   \<and> format_size 1536
       = Inr (fmt2f (of_nat 1536 / 1024 ^ 1) @ '' '' @ [''B'', ''KB'', ''MB'', ''GB'', ''TB''] ! 1)
   \<and> (1023::nat) < 1024
   \<and> format_size 1023 = Inr (digits 1023 @ ''.00 B'')
   \<and> 1024 ^ 5 \<le> (2 ^ 50 :: nat) \<and> (2 ^ 50 :: nat) < 2 ^ 53 \<and> (2 ^ 50 :: nat) < 2 ^ 1033
   \<and> format_size (2 ^ 50) = Inr (fmt2f (of_nat (2 ^ 50) / 1024 ^ 5) @ '' PB'')
   \<and> (\<exists>d. truediv (of_nat (2 ^ 50)) 1024 = Inr d \<and> 2 ^ 40 \<le> d
          \<and> format_size (2 ^ 50) = Inr (fmt2f (d / 1024 ^ 4) @ '' PB''))
   \<and> scanner_format_size 1023 = Inr (digits 1023 @ '' B'')
   \<and> 1024 ^ 3 \<le> (2 ^ 50 :: nat)
   \<and> (\<exists>d. truediv (of_nat (2 ^ 50)) (1024 ^ 3) = Inr d
          \<and> scanner_format_size (2 ^ 50) = Inr (fmt2f d @ '' GB''))"
proof -
  have a: "(1::nat) < 5 \<and> 1024 ^ 1 \<le> (1536::nat) \<and> (1536::nat) < 1024 ^ Suc 1" by simp
  have b: "(1023::nat) < 1024" by simp
  have c: "1024 ^ 5 \<le> (2 ^ 50 :: nat) \<and> (2 ^ 50 :: nat) < 2 ^ 53" by simp
  have d: "1024 ^ 5 \<le> (2 ^ 50 :: nat) \<and> (2 ^ 50 :: nat) < 2 ^ 1033" by simp
  from format_size_units [of 1 1536] a
  have 1: "format_size 1536
       = Inr (fmt2f (of_nat 1536 / 1024 ^ 1) @ '' '' @ [''B'', ''KB'', ''MB'', ''GB'', ''TB''] ! 1)"
    by blast
  from format_size_units [of 0 1023] b
  have 2: "format_size 1023 = Inr (digits 1023 @ ''.00 B'')" by blast
  from format_size_units [of 0 "2 ^ 50"] c
  have 3: "format_size (2 ^ 50) = Inr (fmt2f (of_nat (2 ^ 50) / 1024 ^ 5) @ '' PB'')" by blast
  from format_size_units [of 0 "2 ^ 50"] d
  have 4: "\<exists>d. truediv (of_nat (2 ^ 50)) 1024 = Inr d \<and> 2 ^ 40 \<le> d
          \<and> format_size (2 ^ 50) = Inr (fmt2f (d / 1024 ^ 4) @ '' PB'')" by blast
  have e: "1024 ^ 3 \<le> (2 ^ 50 :: nat) \<and> (2 ^ 50 :: nat) < 2 ^ 1033" by simp
  from format_size_units [of 0 1023] b
  have 5: "scanner_format_size 1023 = Inr (digits 1023 @ '' B'')" by blast
  from format_size_units [of 0 "2 ^ 50"] e
  have 6: "\<exists>d. truediv (of_nat (2 ^ 50)) (1024 ^ 3) = Inr d
          \<and> scanner_format_size (2 ^ 50) = Inr (fmt2f d @ '' GB'')" by blast
  from a b c d e 1 2 3 4 5 6 show ?thesis by blast
qed

theorem scanner_format_size_differs:
  "scanner_format_size 0 = Inr ''0 B''
   \<and> scanner_format_size 0 \<noteq> Inr ''0.00 B''
   \<and> scanner_format_size 1023 = Inr ''1023 B''
   \<and> scanner_format_size (1024 ^ 4) = Inr ''1024.00 GB''
   \<and> scanner_format_size (1024 ^ 5) = Inr ''1048576.00 GB''
   \<and> format_size (2 ^ 1034) = Inl OverflowError"
  by (simp add: format_eval)

section \<open>Report rendering\<close>

lemma format_size_total:
  assumes "n < 2 ^ 1033"
  shows "\<exists>s. format_size n = Inr s"
proof (cases "n < 1024 ^ 5")
  case False
  then show ?thesis using format_size_PB [of n] assms by auto
next
  case True
  then have n: "n < 2 ^ 53" by simp
  have "n < 1024 \<or> (1024 ^ 1 \<le> n \<and> n < 1024 ^ Suc 1)
      \<or> (1024 ^ 2 \<le> n \<and> n < 1024 ^ Suc 2) \<or> (1024 ^ 3 \<le> n \<and> n < 1024 ^ Suc 3)
      \<or> (1024 ^ 4 \<le> n \<and> n < 1024 ^ Suc 4)"
    using True by auto
  then consider "n < 1024" | "1024 ^ 1 \<le> n \<and> n < 1024 ^ Suc 1" | "1024 ^ 2 \<le> n \<and> n < 1024 ^ Suc 2"
    | "1024 ^ 3 \<le> n \<and> n < 1024 ^ Suc 3" | "1024 ^ 4 \<le> n \<and> n < 1024 ^ Suc 4"
    by blast
  then show ?thesis
  proof cases
    case 1
    then have "(of_nat n :: rat) < of_nat 1024" by (rule of_nat_bounds(2))
    then show ?thesis by (simp add: format_size_def)
  next
    case 2
    then show ?thesis using format_size_exact(1) [OF n, of 1] by simp
  next
    case 3
    then show ?thesis using format_size_exact(1) [OF n, of 2] by simp
  next
    case 4
    then show ?thesis using format_size_exact(1) [OF n, of 3] by simp
  next
    case 5
    then show ?thesis using format_size_exact(1) [OF n, of 4] by simp
  qed
qed

lemma collect_total: "\<forall>r \<in> set rs. \<exists>v. r = Inr v \<Longrightarrow> \<exists>vs. collect rs = Inr vs"
proof (induction rs)
  case Nil
  then show ?case by simp
next
  case (Cons r rs)
  then obtain v vs where "r = Inr v" "collect rs = Inr vs" by auto
  then show ?case by simp
qed

lemma largest_lines_total: "largest_size data < 2 ^ 1033 \<Longrightarrow> \<exists>ls. largest_lines data = Inr ls"
  using format_size_total [of "largest_size data"]
  by (auto simp add: largest_lines_def split: option.splits)

lemma bucket_line_total: "b_size (snd kv) < 2 ^ 1033 \<Longrightarrow> \<exists>l. bucket_line kv = Inr l"
  using format_size_total [of "b_size (snd kv)"] by (auto simp add: bucket_line_def)

lemma breakdown_lines_total:
  "list_all (\<lambda>kv. b_size (snd kv) < 2 ^ 1033) (by_extension data)
     \<Longrightarrow> \<exists>ls. breakdown_lines data = Inr ls"
  unfolding breakdown_lines_def
  by (rule collect_total) (auto simp add: list_all_iff bucket_line_total)

lemma build_report_total: "sizes_in_range data \<Longrightarrow> \<exists>s. build_report w data = Inr s"
  using format_size_total [of "total_size data"] largest_lines_total [of data]
    breakdown_lines_total [of data]
  by (auto simp add: sizes_in_range_def build_report_def)

lemma build_filtered_report_total:
  "sizes_in_range data \<Longrightarrow> \<exists>s. build_filtered_report w data = Inr s"
  using format_size_total [of "total_size data"] largest_lines_total [of data]
    breakdown_lines_total [of data]
  by (auto simp add: sizes_in_range_def build_filtered_report_def)

lemma scanner_build_report_total:
  "sc_total_size data < 2 ^ 1033 \<Longrightarrow> largest_file_size data < 2 ^ 1033
     \<Longrightarrow> \<exists>s. scanner_build_report w p data = Inr s"
  using scanner_format_size_total [of "sc_total_size data"]
    scanner_format_size_total [of "largest_file_size data"]
  by (auto simp add: scanner_build_report_def scanner_largest_line_def split: option.splits)

lemma scanner_build_report_clock:
  "scanner_build_report w1 p data = Inr s1 \<Longrightarrow> scanner_build_report w2 p data = Inr s2
     \<Longrightarrow> os_abspath w1 p = os_abspath w2 p
     \<Longrightarrow> s1 = s2 \<longleftrightarrow> clock_text w1 = clock_text w2"
  by (auto simp add: scanner_build_report_def split: sum.splits)

text \<open>
  The reports of \<^verbatim>\<open>folder_report.py\<close> and \<^verbatim>\<open>filter_by_extension.py\<close> read neither the clock
  nor the working directory.
\<close>

lemma build_report_world: "build_report w1 data = build_report w2 data"
  by (simp add: build_report_def)

lemma build_filtered_report_world: "build_filtered_report w1 data = build_filtered_report w2 data"
  by (simp add: build_filtered_report_def)

text \<open>
  Two dictionaries with the same items are equal in Python, whatever their insertion order;
  \<^verbatim>\<open>sorted\<close> makes the breakdown the same for both.
\<close>

lemma filter_distinct_key:
  "distinct (map fst zs) \<Longrightarrow> k \<in> set zs \<Longrightarrow> filter (\<lambda>x. fst k = fst x) zs = [k]"
proof (induction zs)
  case Nil
  then show ?case by simp
next
  case (Cons z zs)
  show ?case
  proof (cases "k = z")
    case True
    have "filter (\<lambda>x. fst z = fst x) zs = []"
      using Cons.prems(1) by (auto simp add: filter_empty_conv image_iff)
    with True show ?thesis by simp
  next
    case False
    with Cons.prems have k: "k \<in> set zs" and d: "distinct (map fst zs)" by simp_all
    from k Cons.prems(1) have "fst k \<noteq> fst z" by (auto simp add: image_iff)
    with Cons.IH [OF d k] show ?thesis by simp
  qed
qed

lemma sort_key_fst_unique:
  fixes xs ys :: "('k::linorder \<times> 'v) list"
  assumes dx: "distinct (map fst xs)" and dy: "distinct (map fst ys)" and s: "set xs = set ys"
  shows "sort_key fst xs = sort_key fst ys"
proof (rule properties_for_sort_key)
  have "distinct xs" "distinct ys" using dx dy by (simp_all add: distinct_map)
  then have m: "mset xs = mset ys" using s by (simp add: set_eq_iff_mset_eq_distinct)
  then show "mset (sort_key fst ys) = mset xs" by simp
  show "sorted (map fst (sort_key fst ys))" by simp
  fix k assume k: "k \<in> set (sort_key fst ys)"
  have "mset (map fst (sort_key fst ys)) = mset (map fst ys)" by simp
  then have d': "distinct (map fst (sort_key fst ys))"
    using dy by (metis mset_eq_imp_distinct_iff)
  from k s have k': "k \<in> set xs" by simp
  show "filter (\<lambda>x. fst k = fst x) (sort_key fst ys) = filter (\<lambda>x. fst k = fst x) xs"
    by (simp only: filter_distinct_key [OF d' k] filter_distinct_key [OF dx k'])
qed

lemma breakdown_lines_order:
  assumes "distinct (map fst kvs)" and "distinct (map fst (by_extension data))"
    and "set kvs = set (by_extension data)"
  shows "breakdown_lines (data\<lparr>by_extension := kvs\<rparr>) = breakdown_lines data"
  using sort_key_fst_unique [OF assms] by (simp add: breakdown_lines_def)

lemma largest_lines_order: "largest_lines (data\<lparr>by_extension := kvs\<rparr>) = largest_lines data"
  by (simp add: largest_lines_def split: option.splits)

lemma build_report_order:
  assumes "distinct (map fst kvs)" and "distinct (map fst (by_extension data))"
    and "set kvs = set (by_extension data)"
  shows "build_report w1 (data\<lparr>by_extension := kvs\<rparr>) = build_report w2 data"
  using breakdown_lines_order [OF assms]
  by (simp add: build_report_def largest_lines_order cong: sum.case_cong)

lemma build_filtered_report_order:
  assumes "distinct (map fst kvs)" and "distinct (map fst (by_extension data))"
    and "set kvs = set (by_extension data)"
  shows "build_filtered_report w1 (data\<lparr>by_extension := kvs\<rparr>) = build_filtered_report w2 data"
  using breakdown_lines_order [OF assms]
  by (simp add: build_filtered_report_def largest_lines_order filter_lines_def
      cong: sum.case_cong)

lemma scanner_build_report_order:
  assumes "distinct (map fst kvs)" and "distinct (map fst (extensions data))"
    and "set kvs = set (extensions data)"
  shows "scanner_build_report w (p :: string) (data\<lparr>extensions := kvs\<rparr>)
           = scanner_build_report w p data"
proof -
  have "kvs = [] \<longleftrightarrow> extensions data = []" using assms(3) by (metis set_empty)
  with sort_key_fst_unique [OF assms]
  have t: "scanner_type_lines (data\<lparr>extensions := kvs\<rparr>) = scanner_type_lines data"
    by (simp add: scanner_type_lines_def)
  have l: "scanner_largest_line (data\<lparr>extensions := kvs\<rparr>) = scanner_largest_line data"
    by (simp add: scanner_largest_line_def split: option.splits)
  have f: "sc_total_size (data\<lparr>extensions := kvs\<rparr>) = sc_total_size data"
    "sc_total_files (data\<lparr>extensions := kvs\<rparr>) = sc_total_files data"
    by simp_all
  show ?thesis unfolding scanner_build_report_def t l f ..
qed

lemma empty_report:
  "build_report w (initial_data r)
     = Inr (join newline
         [replicate 60 CHR ''='', ''FOLDER SCAN REPORT'', replicate 60 CHR ''='',
          ''Folder: '' @ r, [], ''SUMMARY'', replicate 40 CHR ''-'',
          ''Total files:  0'', ''Total size:   0.00 B'', [],
          ''Largest file: (none)'',
          [], ''FILE TYPES BREAKDOWN'', replicate 40 CHR ''-'',
          replicate 60 CHR ''=''])"
  by (simp add: build_report_def initial_data_def largest_lines_def breakdown_lines_def
      format_size_examples digits_0)

lemma example_report:
  "build_report w
     \<lparr>folder = ''/data'', total_files = 3, total_size = 35, largest_file = Some file_b,
      largest_size = 20,
      by_extension = [(''.txt'', \<lparr>b_count = 2, b_size = 30\<rparr>),
                      (''(no extension)'', \<lparr>b_count = 1, b_size = 5\<rparr>)]\<rparr>
     = Inr (join newline
         [replicate 60 CHR ''='', ''FOLDER SCAN REPORT'', replicate 60 CHR ''='',
          ''Folder: /data'', [], ''SUMMARY'', replicate 40 CHR ''-'',
          ''Total files:  3'', ''Total size:   35.00 B'', [],
          ''Largest file: b.TXT (20.00 B)'', ''  Path: /data/b.TXT'',
          [], ''FILE TYPES BREAKDOWN'', replicate 40 CHR ''-'',
          ''  (no extension)        count:      1  size: 5.00 B'',
          ''  .txt                  count:      2  size: 30.00 B'',
          replicate 60 CHR ''=''])"
  by (simp add: build_report_def largest_lines_def breakdown_lines_def bucket_line_def
      format_eval file_b_def ljust_def rjust_def str_len_def less_eq_char_def less_char_def
      list_le_def list_less_def)
    code_simp

text \<open>
  Claim C7, as amended. \<^verbatim>\<open>folder_report.build_report\<close> and \<^verbatim>\<open>build_filtered_report\<close> return a
  text for every result whose byte counts are in the range of the float division, the empty
  result included. Two calls on the same result return the same text, whatever the clock and
  the working directory are at the two calls, and also when the two results hold the same
  buckets in a different insertion order. \<^verbatim>\<open>folder_scanner.build_report\<close> returns a text as
  well, the same for either order of the extension counter, but the text contains the clock
  reading: two calls on the same result from the same working directory agree exactly when
  the clock text is the same.
\<close>

theorem report_rendering:
  "(sizes_in_range data \<longrightarrow> (\<exists>s. build_report w data = Inr s))
   \<and> (sizes_in_range fdata \<longrightarrow> (\<exists>s. build_filtered_report w fdata = Inr s))
   \<and> build_report w (initial_data r)
       = Inr (join newline
           [replicate 60 CHR ''='', ''FOLDER SCAN REPORT'', replicate 60 CHR ''='',
            ''Folder: '' @ r, [], ''SUMMARY'', replicate 40 CHR ''-'',
            ''Total files:  0'', ''Total size:   0.00 B'', [],
            ''Largest file: (none)'',
            [], ''FILE TYPES BREAKDOWN'', replicate 40 CHR ''-'',
            replicate 60 CHR ''=''])
   \<and> build_report w1 data = build_report w2 data
   \<and> build_filtered_report w1 fdata = build_filtered_report w2 fdata
   \<and> (distinct (map fst kvs) \<and> distinct (map fst (by_extension data))
        \<and> set kvs = set (by_extension data)
        \<longrightarrow> build_report w1 (data\<lparr>by_extension := kvs\<rparr>) = build_report w2 data)
   \<and> (distinct (map fst fkvs) \<and> distinct (map fst (by_extension fdata))
        \<and> set fkvs = set (by_extension fdata)
        \<longrightarrow> build_filtered_report w1 (fdata\<lparr>by_extension := fkvs\<rparr>)
              = build_filtered_report w2 fdata)
   \<and> (sc_total_size sdata < 2 ^ 1033 \<and> largest_file_size sdata < 2 ^ 1033 \<longrightarrow>
        (\<exists>s. scanner_build_report w p sdata = Inr s))
   \<and> (distinct (map fst skvs) \<and> distinct (map fst (extensions sdata))
        \<and> set skvs = set (extensions sdata)
        \<longrightarrow> scanner_build_report w p (sdata\<lparr>extensions := skvs\<rparr>)
              = scanner_build_report w p sdata)
   \<and> (scanner_build_report w1 p sdata = Inr s1 \<and> scanner_build_report w2 p sdata = Inr s2
        \<and> os_abspath w1 p = os_abspath w2 p
        \<longrightarrow> (s1 = s2 \<longleftrightarrow> clock_text w1 = clock_text w2))"
proof -
  have a: "sizes_in_range data \<longrightarrow> (\<exists>s. build_report w data = Inr s)"
    using build_report_total [of data w] by blast
  have b: "sizes_in_range fdata \<longrightarrow> (\<exists>s. build_filtered_report w fdata = Inr s)"
    using build_filtered_report_total [of fdata w] by blast
  note c = empty_report [of w r]
  note d = build_report_world [of w1 data w2]
  note e = build_filtered_report_world [of w1 fdata w2]
  have f: "distinct (map fst kvs) \<and> distinct (map fst (by_extension data))
        \<and> set kvs = set (by_extension data)
        \<longrightarrow> build_report w1 (data\<lparr>by_extension := kvs\<rparr>) = build_report w2 data"
    using build_report_order [of kvs data w1 w2] by blast
  have g: "distinct (map fst fkvs) \<and> distinct (map fst (by_extension fdata))
        \<and> set fkvs = set (by_extension fdata)
        \<longrightarrow> build_filtered_report w1 (fdata\<lparr>by_extension := fkvs\<rparr>)
              = build_filtered_report w2 fdata"
    using build_filtered_report_order [of fkvs fdata w1 w2] by blast
  have h: "sc_total_size sdata < 2 ^ 1033 \<and> largest_file_size sdata < 2 ^ 1033 \<longrightarrow>
        (\<exists>s. scanner_build_report w p sdata = Inr s)"
    using scanner_build_report_total [of sdata w p] by blast
  have i: "distinct (map fst skvs) \<and> distinct (map fst (extensions sdata))
        \<and> set skvs = set (extensions sdata)
        \<longrightarrow> scanner_build_report w p (sdata\<lparr>extensions := skvs\<rparr>)
              = scanner_build_report w p sdata"
    using scanner_build_report_order [of skvs sdata w p] by blast
  have j: "scanner_build_report w1 p sdata = Inr s1 \<and> scanner_build_report w2 p sdata = Inr s2
        \<and> os_abspath w1 p = os_abspath w2 p
        \<longrightarrow> (s1 = s2 \<longleftrightarrow> clock_text w1 = clock_text w2)"
    using scanner_build_report_clock [of w1 p sdata s1 w2 s2] by blast
  show ?thesis by (intro conjI a b c d e f g h i j)
qed

theorem report_rendering_witness:
  "sizes_in_range
     \<lparr>folder = ''/data'', total_files = 3, total_size = 35, largest_file = Some file_b,
      largest_size = 20,
      by_extension = [(''.txt'', \<lparr>b_count = 2, b_size = 30\<rparr>),
                      (''(no extension)'', \<lparr>b_count = 1, b_size = 5\<rparr>)]\<rparr>
   \<and> build_report (example_world ''2024-01-01 00:00:00'')
        \<lparr>folder = ''/data'', total_files = 3, total_size = 35, largest_file = Some file_b,
         largest_size = 20,
         by_extension = [(''(no extension)'', \<lparr>b_count = 1, b_size = 5\<rparr>),
                         (''.txt'', \<lparr>b_count = 2, b_size = 30\<rparr>)]\<rparr>
       = build_report (example_world ''2024-01-01 00:00:01'')
        \<lparr>folder = ''/data'', total_files = 3, total_size = 35, largest_file = Some file_b,
         largest_size = 20,
         by_extension = [(''.txt'', \<lparr>b_count = 2, b_size = 30\<rparr>),
                         (''(no extension)'', \<lparr>b_count = 1, b_size = 5\<rparr>)]\<rparr>
   \<and> build_report (example_world ''2024-01-01 00:00:01'')
        \<lparr>folder = ''/data'', total_files = 3, total_size = 35, largest_file = Some file_b,
         largest_size = 20,
         by_extension = [(''.txt'', \<lparr>b_count = 2, b_size = 30\<rparr>),
                         (''(no extension)'', \<lparr>b_count = 1, b_size = 5\<rparr>)]\<rparr>
       = Inr (join newline
         [replicate 60 CHR ''='', ''FOLDER SCAN REPORT'', replicate 60 CHR ''='',
          ''Folder: /data'', [], ''SUMMARY'', replicate 40 CHR ''-'',
          ''Total files:  3'', ''Total size:   35.00 B'', [],
          ''Largest file: b.TXT (20.00 B)'', ''  Path: /data/b.TXT'',
          [], ''FILE TYPES BREAKDOWN'', replicate 40 CHR ''-'',
          ''  (no extension)        count:      1  size: 5.00 B'',
          ''  .txt                  count:      2  size: 30.00 B'',
          replicate 60 CHR ''=''])
   \<and> sizes_in_range
     \<lparr>folder = ''/data'', total_files = 2, total_size = 30, largest_file = Some file_b,
      largest_size = 20, by_extension = [(''.txt'', \<lparr>b_count = 2, b_size = 30\<rparr>)],
      skipped = 1, filter_include = Some [''.txt''], filter_exclude = None\<rparr>
   \<and> (\<exists>s. build_filtered_report (example_world ''2024-01-01 00:00:00'')
          \<lparr>folder = ''/data'', total_files = 2, total_size = 30, largest_file = Some file_b,
           largest_size = 20, by_extension = [(''.txt'', \<lparr>b_count = 2, b_size = 30\<rparr>)],
           skipped = 1, filter_include = Some [''.txt''], filter_exclude = None\<rparr> = Inr s)
   \<and> sc_total_size initial_scanner < 2 ^ 1033 \<and> largest_file_size initial_scanner < 2 ^ 1033
   \<and> scanner_build_report (example_world ''2024-01-01 00:00:00'') ''/data'' initial_scanner
       = Inr (join newline
           [replicate 50 CHR ''='', ''        FOLDER SCAN REPORT'', replicate 50 CHR ''='',
            ''Folder scanned : /data'', ''Scan date      : 2024-01-01 00:00:00'',
            replicate 50 CHR ''-'', ''Total files    : 0'', ''Total size     : 0 B'',
            none_line, replicate 50 CHR ''-'', ''File types breakdown:'',
            ''  (no files found)'', replicate 50 CHR ''=''])
   \<and> scanner_build_report (example_world ''2024-01-01 00:00:01'') ''/data'' initial_scanner
       = Inr (join newline
           [replicate 50 CHR ''='', ''        FOLDER SCAN REPORT'', replicate 50 CHR ''='',
            ''Folder scanned : /data'', ''Scan date      : 2024-01-01 00:00:01'',
            replicate 50 CHR ''-'', ''Total files    : 0'', ''Total size     : 0 B'',
            none_line, replicate 50 CHR ''-'', ''File types breakdown:'',
            ''  (no files found)'', replicate 50 CHR ''=''])
   \<and> join newline
           [replicate 50 CHR ''='', ''        FOLDER SCAN REPORT'', replicate 50 CHR ''='',
            ''Folder scanned : /data'', ''Scan date      : 2024-01-01 00:00:00'',
            replicate 50 CHR ''-'', ''Total files    : 0'', ''Total size     : 0 B'',
            none_line, replicate 50 CHR ''-'', ''File types breakdown:'',
            ''  (no files found)'', replicate 50 CHR ''='']
       \<noteq> join newline
           [replicate 50 CHR ''='', ''        FOLDER SCAN REPORT'', replicate 50 CHR ''='',
            ''Folder scanned : /data'', ''Scan date      : 2024-01-01 00:00:01'',
            replicate 50 CHR ''-'', ''Total files    : 0'', ''Total size     : 0 B'',
            none_line, replicate 50 CHR ''-'', ''File types breakdown:'',
            ''  (no files found)'', replicate 50 CHR ''='']"
proof -
  let ?w1 = "example_world ''2024-01-01 00:00:00''"
  let ?w2 = "example_world ''2024-01-01 00:00:01''"
  let ?kvs = "[(''(no extension)'', \<lparr>b_count = 1, b_size = 5\<rparr>),
               (''.txt'', \<lparr>b_count = 2, b_size = 30\<rparr>)]"
  let ?d = "\<lparr>folder = ''/data'', total_files = 3, total_size = 35, largest_file = Some file_b,
      largest_size = 20,
      by_extension = [(''.txt'', \<lparr>b_count = 2, b_size = 30\<rparr>),
                      (''(no extension)'', \<lparr>b_count = 1, b_size = 5\<rparr>)]\<rparr>"
  let ?f = "\<lparr>folder = ''/data'', total_files = 2, total_size = 30, largest_file = Some file_b,
      largest_size = 20, by_extension = [(''.txt'', \<lparr>b_count = 2, b_size = 30\<rparr>)],
      skipped = 1, filter_include = Some [''.txt''], filter_exclude = None\<rparr>"
  let ?s1 = "join newline
           [replicate 50 CHR ''='', ''        FOLDER SCAN REPORT'', replicate 50 CHR ''='',
            ''Folder scanned : /data'', ''Scan date      : 2024-01-01 00:00:00'',
            replicate 50 CHR ''-'', ''Total files    : 0'', ''Total size     : 0 B'',
            none_line, replicate 50 CHR ''-'', ''File types breakdown:'',
            ''  (no files found)'', replicate 50 CHR ''='']"
  let ?s2 = "join newline
           [replicate 50 CHR ''='', ''        FOLDER SCAN REPORT'', replicate 50 CHR ''='',
            ''Folder scanned : /data'', ''Scan date      : 2024-01-01 00:00:01'',
            replicate 50 CHR ''-'', ''Total files    : 0'', ''Total size     : 0 B'',
            none_line, replicate 50 CHR ''-'', ''File types breakdown:'',
            ''  (no files found)'', replicate 50 CHR ''='']"
  have a: "sizes_in_range ?d" by (simp add: sizes_in_range_def)
  have b: "sizes_in_range ?f" by (simp add: sizes_in_range_def)
  have c: "sc_total_size initial_scanner < 2 ^ 1033 \<and> largest_file_size initial_scanner < 2 ^ 1033"
    by (simp add: initial_scanner_def)
  have d: "scanner_build_report ?w1 ''/data'' initial_scanner = Inr ?s1"
    by code_simp
  have e: "scanner_build_report ?w2 ''/data'' initial_scanner = Inr ?s2"
    by code_simp
  have t: "clock_text ?w1 \<noteq> clock_text ?w2" "os_abspath ?w1 ''/data'' = os_abspath ?w2 ''/data''"
    by (simp_all add: example_world_def)
  have k: "distinct (map fst ?kvs)" "distinct (map fst (by_extension ?d))"
    "set ?kvs = set (by_extension ?d)" "?d\<lparr>by_extension := ?kvs\<rparr>
      = \<lparr>folder = ''/data'', total_files = 3, total_size = 35, largest_file = Some file_b,
         largest_size = 20, by_extension = ?kvs\<rparr>"
    by auto
  note r = report_rendering [where data = ?d and fdata = ?f and sdata = initial_scanner
      and w = ?w1 and ?w1.0 = ?w1 and ?w2.0 = ?w2 and p = "''/data''" and kvs = ?kvs
      and ?s1.0 = ?s1 and ?s2.0 = ?s2]
  from r k have 1: "build_report ?w1
        \<lparr>folder = ''/data'', total_files = 3, total_size = 35, largest_file = Some file_b,
         largest_size = 20, by_extension = ?kvs\<rparr> = build_report ?w2 ?d"
    by simp
  from r b have 2: "\<exists>s. build_filtered_report ?w1 ?f = Inr s" by blast
  from r d e t have 3: "?s1 \<noteq> ?s2" by blast
  note 4 = example_report [of ?w2]
  from a b c d e 1 2 3 4 show ?thesis by blast
qed

text \<open>
  The same result, the same working directory, the clock one second later: the two reports
  of \<^verbatim>\<open>folder_scanner.build_report\<close> differ.
\<close>

theorem scanner_report_reads_clock:
  "scanner_build_report (example_world ''2024-01-01 00:00:00'') ''/data'' initial_scanner
     \<noteq> scanner_build_report (example_world ''2024-01-01 00:00:01'') ''/data'' initial_scanner"
  by code_simp


end
